theory Spec2Isabelle
  imports Main
begin

section \<open>The file organiser of \<^verbatim>\<open>hazel_replacement/hazel_service.py\<close>\<close>

text \<open>
  The development embeds the rule engine of the service: parsing of the watch rules,
  detection of the download source, the matching of redirect domains and type rules, the
  generation of a free file name, the move and \<^verbatim>\<open>process_file\<close>.

  A string is a list of characters, and a character is a code point below 256 (the
  Latin-1 range), so that lengths and indices count what Python's \<^verbatim>\<open>str\<close> counts.
  \<^verbatim>\<open>str.lower\<close> maps the upper-case letters of that range, \<^verbatim>\<open>A\<close>..\<^verbatim>\<open>Z\<close> and
  \<^verbatim>\<open>U+00C0\<close>..\<^verbatim>\<open>U+00DE\<close> without the multiplication sign \<^verbatim>\<open>U+00D7\<close>, to the code
  point 32 above, and leaves every other character as it is. Logging has no effect on
  the file system or on any decision and is left out.
\<close>

subsection \<open>Strings\<close>

definition upper_letters :: string where
  "upper_letters =
     ''ABCDEFGHIJKLMNOPQRSTUVWXYZ''
     @ [CHR 0xC0, CHR 0xC1, CHR 0xC2, CHR 0xC3, CHR 0xC4, CHR 0xC5, CHR 0xC6, CHR 0xC7,
        CHR 0xC8, CHR 0xC9, CHR 0xCA, CHR 0xCB, CHR 0xCC, CHR 0xCD, CHR 0xCE, CHR 0xCF,
        CHR 0xD0, CHR 0xD1, CHR 0xD2, CHR 0xD3, CHR 0xD4, CHR 0xD5, CHR 0xD6,
        CHR 0xD8, CHR 0xD9, CHR 0xDA, CHR 0xDB, CHR 0xDC, CHR 0xDD, CHR 0xDE]"

definition lower_letters :: string where
  "lower_letters =
     ''abcdefghijklmnopqrstuvwxyz''
     @ [CHR 0xE0, CHR 0xE1, CHR 0xE2, CHR 0xE3, CHR 0xE4, CHR 0xE5, CHR 0xE6, CHR 0xE7,
        CHR 0xE8, CHR 0xE9, CHR 0xEA, CHR 0xEB, CHR 0xEC, CHR 0xED, CHR 0xEE, CHR 0xEF,
        CHR 0xF0, CHR 0xF1, CHR 0xF2, CHR 0xF3, CHR 0xF4, CHR 0xF5, CHR 0xF6,
        CHR 0xF8, CHR 0xF9, CHR 0xFA, CHR 0xFB, CHR 0xFC, CHR 0xFD, CHR 0xFE]"

definition lower_char :: "char \<Rightarrow> char" where
  "lower_char c =
     (case map_of (zip upper_letters lower_letters) c of
        None \<Rightarrow> c
      | Some l \<Rightarrow> l)"

definition lower :: "string \<Rightarrow> string" where
  "lower s = map lower_char s"

text \<open>\<^verbatim>\<open>s.startswith(p)\<close> and \<^verbatim>\<open>s.endswith(p)\<close>.\<close>

fun startswith :: "string \<Rightarrow> string \<Rightarrow> bool" where
  "startswith s [] = True"
| "startswith [] (c # p) = False"
| "startswith (x # s) (c # p) = (x = c \<and> startswith s p)"

definition endswith :: "string \<Rightarrow> string \<Rightarrow> bool" where
  "endswith s p = startswith (rev s) (rev p)"

text \<open>\<^verbatim>\<open>pat in s\<close> on strings: \<open>pat\<close> occurs in \<open>s\<close> as a contiguous block.\<close>

fun str_in :: "string \<Rightarrow> string \<Rightarrow> bool" where
  "str_in pat [] = (pat = [])"
| "str_in pat (c # cs) = (startswith (c # cs) pat \<or> str_in pat cs)"

text \<open>\<^verbatim>\<open>s.rfind(c)\<close>: the index of the last occurrence of \<open>c\<close>, or \<open>-1\<close>.\<close>

fun rfind :: "string \<Rightarrow> char \<Rightarrow> int" where
  "rfind [] c = -1"
| "rfind (x # xs) c =
     (let r = rfind xs c in if 0 \<le> r then r + 1 else if x = c then 0 else -1)"

text \<open>\<^verbatim>\<open>s.find(c)\<close>: the index of the first occurrence of \<open>c\<close>, or \<open>-1\<close>.\<close>

fun find_char :: "string \<Rightarrow> char \<Rightarrow> int" where
  "find_char [] c = -1"
| "find_char (x # xs) c =
     (if x = c then 0 else (let r = find_char xs c in if 0 \<le> r then r + 1 else -1))"

text \<open>The decimal numeral that an f-string prints for a non-negative counter.\<close>

definition digit :: "nat \<Rightarrow> char" where
  "digit d = ''0123456789'' ! d"

fun str_nat :: "nat \<Rightarrow> string" where
  "str_nat n = (if n < 10 then [digit n] else str_nat (n div 10) @ [digit (n mod 10)])"

declare str_nat.simps [simp del]

subsection \<open>Paths\<close>

text \<open>
  A \<^verbatim>\<open>pathlib.Path\<close> is the list of its components below the root; the paths of the
  service are absolute (the watch directory is expanded at start-up). \<open>parse_parts\<close> is
  the parsing of a string into components: separators are \<^verbatim>\<open>/\<close>, empty components and
  \<^verbatim>\<open>.\<close> are dropped, \<^verbatim>\<open>..\<close> is kept. \<open>joinpath p s\<close> is \<^verbatim>\<open>p / s\<close>: an
  absolute \<open>s\<close> replaces \<open>p\<close>.
\<close>

type_synonym path = "string list"

fun split_on :: "char \<Rightarrow> string \<Rightarrow> string list" where
  "split_on d [] = [[]]"
| "split_on d (c # cs) =
     (if c = d then [] # split_on d cs
      else (case split_on d cs of [] \<Rightarrow> [[c]] | w # ws \<Rightarrow> (c # w) # ws))"

definition parse_parts :: "string \<Rightarrow> path" where
  "parse_parts s = filter (\<lambda>w. w \<noteq> [] \<and> w \<noteq> ''.'') (split_on (CHR ''/'') s)"

definition joinpath :: "path \<Rightarrow> string \<Rightarrow> path" where
  "joinpath p s = (if startswith s ''/'' then parse_parts s else p @ parse_parts s)"

text \<open>\<^verbatim>\<open>Path.name\<close>, \<^verbatim>\<open>Path.parent\<close>, and \<^verbatim>\<open>suffix\<close> and \<^verbatim>\<open>stem\<close> of a name
  (the last dot counts unless it is the first or the last character of the name).\<close>

definition name_of :: "path \<Rightarrow> string" where
  "name_of p = (if p = [] then [] else last p)"

definition parent :: "path \<Rightarrow> path" where
  "parent p = butlast p"

definition suffix_of :: "string \<Rightarrow> string" where
  "suffix_of nm =
     (let i = rfind nm (CHR ''.'') in
      if 0 < i \<and> i < int (length nm) - 1 then drop (nat i) nm else [])"

definition stem_of :: "string \<Rightarrow> string" where
  "stem_of nm =
     (let i = rfind nm (CHR ''.'') in
      if 0 < i \<and> i < int (length nm) - 1 then take (nat i) nm else nm)"

subsection \<open>Rules\<close>

record TypeRule =
  tr_name :: string
  extensions :: "string list"
  destination :: string

record WatchRule =
  name :: string
  watch_directory :: path
  enabled :: bool
  redirect_domains :: "string list"
  type_rules :: "TypeRule list"
  redirect_destination :: string
  source_directories :: "string list"

subsection \<open>Type matching\<close>

definition get_file_extension :: "path \<Rightarrow> string" where
  "get_file_extension file_path = lower (suffix_of (name_of file_path))"

text \<open>The loop over the rules, for the extension \<open>ext\<close> computed once before it.\<close>

fun type_rule_loop :: "string \<Rightarrow> TypeRule list \<Rightarrow> TypeRule option" where
  "type_rule_loop ext [] = None"
| "type_rule_loop ext (rule # rules) =
     (if ext \<in> set (extensions rule) then Some rule else type_rule_loop ext rules)"

definition find_matching_type_rule :: "path \<Rightarrow> TypeRule list \<Rightarrow> TypeRule option" where
  "find_matching_type_rule file_path rules =
     type_rule_loop (get_file_extension file_path) rules"


subsection \<open>Errors\<close>

datatype error =
    ValueError
  | KeyError
  | FileNotFoundError
  | FileExistsError
  | NotADirectoryError
  | ShutilError

subsection \<open>Download source and redirect domains\<close>

text \<open>
  \<open>urlparse_netloc url\<close> is \<^verbatim>\<open>urlparse(url).netloc\<close> of the standard library, after
  \<^verbatim>\<open>urllib.parse.urlsplit\<close> of CPython 3.11: leading control characters and spaces are
  stripped, tabs and line breaks removed, a leading scheme
  (\<^verbatim>\<open>letter (letter | digit | + | - | .)* :\<close>) is split off, and when the rest starts
  with \<^verbatim>\<open>//\<close> the network location is what follows up to the first \<^verbatim>\<open>/\<close>, \<^verbatim>\<open>?\<close>
  or \<^verbatim>\<open>#\<close>; otherwise it is empty. A network location with only one of \<^verbatim>\<open>[\<close> and
  \<^verbatim>\<open>]\<close> raises \<^verbatim>\<open>ValueError\<close>; with both, what stands between the first \<^verbatim>\<open>[\<close> and
  the next \<^verbatim>\<open>]\<close> must be an IPv6 address or an \<^verbatim>\<open>IPvFuture\<close> address, as
  \<^verbatim>\<open>_check_bracketed_host\<close> and \<^verbatim>\<open>ipaddress.ip_address\<close> decide, or \<^verbatim>\<open>ValueError\<close>
  is raised. The last check of \<^verbatim>\<open>urlsplit\<close>, on the NFKC normal form of a network
  location that is not ASCII, raises only when that form holds one of \<^verbatim>\<open>/?#@:\<close> that
  the network location does not; no character below 256 normalises to one of them, so
  the check never raises here.
\<close>

subsubsection \<open>IP literals, after \<^verbatim>\<open>ipaddress\<close>\<close>

definition decimal_digits :: string where
  "decimal_digits = ''0123456789''"

definition hex_digits :: string where
  "hex_digits = ''0123456789abcdefABCDEF''"

definition digit_value :: "char \<Rightarrow> nat" where
  "digit_value c =
     (case map_of (zip decimal_digits [0, 1, 2, 3, 4, 5, 6, 7, 8, 9]) c of
        None \<Rightarrow> 0
      | Some d \<Rightarrow> d)"

definition int_of_decimal :: "string \<Rightarrow> nat" where
  "int_of_decimal s = foldl (\<lambda>a c. 10 * a + digit_value c) 0 s"

text \<open>\<^verbatim>\<open>_parse_octet\<close>, \<^verbatim>\<open>_parse_hextet\<close> and \<^verbatim>\<open>IPv4Address\<close>: whether they return.\<close>

definition parse_octet_ok :: "string \<Rightarrow> bool" where
  "parse_octet_ok octet_str =
     (octet_str \<noteq> []
      \<and> list_all (\<lambda>c. c \<in> set decimal_digits) octet_str
      \<and> length octet_str \<le> 3
      \<and> \<not> (octet_str \<noteq> ''0'' \<and> hd octet_str = CHR ''0'')
      \<and> int_of_decimal octet_str \<le> 255)"

definition parse_hextet_ok :: "string \<Rightarrow> bool" where
  "parse_hextet_ok hextet_str =
     (list_all (\<lambda>c. c \<in> set hex_digits) hextet_str
      \<and> length hextet_str \<le> 4
      \<and> hextet_str \<noteq> [])"

definition ipv4_ok :: "string \<Rightarrow> bool" where
  "ipv4_ok addr_str =
     (CHR ''/'' \<notin> set addr_str
      \<and> addr_str \<noteq> []
      \<and> length (split_on (CHR ''.'') addr_str) = 4
      \<and> list_all parse_octet_ok (split_on (CHR ''.'') addr_str))"

text \<open>
  \<^verbatim>\<open>_BaseV6._ip_int_from_string\<close> on the parts between the colons, after an IPv4
  suffix has been replaced by its two hextets: at most nine parts; at most one empty part
  strictly inside, which stands for the run of zeroes that \<^verbatim>\<open>::\<close> skips; an empty first
  or last part only next to it; eight hextets when nothing is skipped, fewer otherwise.
\<close>

definition ipv6_parts_ok :: "string list \<Rightarrow> bool" where
  "ipv6_parts_ok parts =
     (let inner = take (length parts - 2) (drop 1 parts);
          skips = filter (\<lambda>i. parts ! i = []) [1 ..< length parts - 1]
      in length parts \<le> 9
         \<and> length skips \<le> 1
         \<and> (case skips of
               skip_index # _ \<Rightarrow>
                 (let parts_hi = (if hd parts = [] then skip_index - 1 else skip_index);
                      parts_lo = (if last parts = [] then length parts - skip_index - 2
                                  else length parts - skip_index - 1)
                  in (if hd parts = [] then parts_hi = 0 else True)
                     \<and> (if last parts = [] then parts_lo = 0 else True)
                     \<and> parts_hi + parts_lo < 8
                     \<and> list_all parse_hextet_ok (take parts_hi parts)
                     \<and> list_all parse_hextet_ok (drop (length parts - parts_lo) parts))
             | [] \<Rightarrow>
                 length parts = 8 \<and> hd parts \<noteq> [] \<and> last parts \<noteq> []
                 \<and> list_all parse_hextet_ok parts))"

definition ipv6_ok :: "string \<Rightarrow> bool" where
  "ipv6_ok addr_str =
     (let addr = takeWhile (\<lambda>c. c \<noteq> CHR ''%'') addr_str;
          scope_id = drop 1 (dropWhile (\<lambda>c. c \<noteq> CHR ''%'') addr_str);
          parts = split_on (CHR '':'') addr
      in CHR ''/'' \<notin> set addr_str
         \<and> (if CHR ''%'' \<in> set addr_str
             then scope_id \<noteq> [] \<and> CHR ''%'' \<notin> set scope_id
             else True)
         \<and> addr \<noteq> []
         \<and> 3 \<le> length parts
         \<and> (if CHR ''.'' \<in> set (last parts)
             then ipv4_ok (last parts) \<and> ipv6_parts_ok (butlast parts @ [''0'', ''0''])
             else ipv6_parts_ok parts))"

text \<open>The regular expression \<^verbatim>\<open>\Av[a-fA-F0-9]+\..+\Z\<close> for an \<^verbatim>\<open>IPvFuture\<close> address.\<close>

definition ipvfuture_ok :: "string \<Rightarrow> bool" where
  "ipvfuture_ok hostname =
     (let rest = dropWhile (\<lambda>c. c \<in> set hex_digits) (drop 1 hostname) in
      startswith hostname ''v''
      \<and> takeWhile (\<lambda>c. c \<in> set hex_digits) (drop 1 hostname) \<noteq> []
      \<and> startswith rest ''.''
      \<and> drop 1 rest \<noteq> []
      \<and> CHR 0x0A \<notin> set (drop 1 rest))"

text \<open>\<^verbatim>\<open>_check_bracketed_host\<close>: whether it returns. \<^verbatim>\<open>ip_address\<close> tries an IPv4
  address first, and an IPv4 address in brackets is refused.\<close>

definition check_bracketed_host :: "string \<Rightarrow> bool" where
  "check_bracketed_host hostname =
     (if startswith hostname ''v'' then ipvfuture_ok hostname
      else \<not> ipv4_ok hostname \<and> ipv6_ok hostname)"

subsubsection \<open>The network location\<close>

definition scheme_chars :: string where
  "scheme_chars =
     ''abcdefghijklmnopqrstuvwxyzABCDEFGHIJKLMNOPQRSTUVWXYZ0123456789+-.''"

definition ascii_letters :: string where
  "ascii_letters = ''abcdefghijklmnopqrstuvwxyzABCDEFGHIJKLMNOPQRSTUVWXYZ''"

definition c0_control_or_space :: "char \<Rightarrow> bool" where
  "c0_control_or_space c = ((of_char c :: nat) \<le> 32)"

definition unsafe_url_byte :: "char \<Rightarrow> bool" where
  "unsafe_url_byte c = (c = CHR 0x09 \<or> c = CHR 0x0D \<or> c = CHR 0x0A)"

definition split_scheme :: "string \<Rightarrow> string" where
  "split_scheme url =
     (let i = find_char url (CHR '':'') in
      if 0 < i \<and> hd url \<in> set ascii_letters
           \<and> list_all (\<lambda>c. c \<in> set scheme_chars) (take (nat i) url)
      then drop (nat i + 1) url
      else url)"

definition urlparse_netloc :: "string \<Rightarrow> error + string" where
  "urlparse_netloc url =
     (let url1 = dropWhile c0_control_or_space url;
          url2 = filter (\<lambda>c. \<not> unsafe_url_byte c) url1;
          url3 = split_scheme url2
      in if take 2 url3 = ''//'' then
           (let netloc = takeWhile (\<lambda>c. c \<notin> set ''/?#'') (drop 2 url3);
                bracketed_host =
                  takeWhile (\<lambda>c. c \<noteq> CHR '']'')
                    (drop 1 (dropWhile (\<lambda>c. c \<noteq> CHR ''['') netloc))
            in if (CHR ''['' \<in> set netloc) \<noteq> (CHR '']'' \<in> set netloc) then Inl ValueError
               else if CHR ''['' \<in> set netloc \<and> \<not> check_bracketed_host bracketed_host
               then Inl ValueError
               else Inr netloc)
         else Inr [])"

definition extract_domain :: "string \<Rightarrow> string option" where
  "extract_domain url =
     (case urlparse_netloc url of Inl e \<Rightarrow> None | Inr netloc \<Rightarrow> Some (lower netloc))"

text \<open>The loop over the redirect patterns, for the lower-cased domain.\<close>

fun redirect_loop :: "string \<Rightarrow> string list \<Rightarrow> bool" where
  "redirect_loop domain_lower [] = False"
| "redirect_loop domain_lower (pattern # patterns) =
     (if str_in (lower pattern) domain_lower then True
      else redirect_loop domain_lower patterns)"

definition matches_redirect_domain :: "string \<Rightarrow> string list \<Rightarrow> bool" where
  "matches_redirect_domain url domains =
     (if url = [] then False
      else (case extract_domain url of
              None \<Rightarrow> False
            | Some domain \<Rightarrow>
                if domain = [] then False
                else redirect_loop (lower domain) domains))"

subsection \<open>The configuration document\<close>

text \<open>
  The parsed YAML document, with the types the data classes declare. A key of a mapping
  that may be missing is an \<open>option\<close>, \<open>None\<close> for a missing key; \<open>dict_get\<close> is
  \<^verbatim>\<open>d.get(key, default)\<close>. The mapping of type rules is the list of its items in
  document order. \<open>expanduser\<close>, which reads the environment, is a parameter.
\<close>

record type_config =
  tc_extensions :: "string list option"
  tc_destination :: "string option"

record rule_config =
  rc_name :: "string option"
  rc_watch_directory :: "string option"
  rc_enabled :: "bool option"
  rc_redirect_domains :: "string list option"
  rc_type_rules :: "(string \<times> type_config) list option"
  rc_redirect_destination :: "string option"
  rc_source_directories :: "string list option"

record config =
  watch_rules :: "rule_config list option"

definition dict_get :: "'a option \<Rightarrow> 'a \<Rightarrow> 'a" where
  "dict_get v d = (case v of None \<Rightarrow> d | Some x \<Rightarrow> x)"

definition parse_type_rule :: "string \<times> type_config \<Rightarrow> TypeRule" where
  "parse_type_rule item =
     (case item of (type_name, type_config) \<Rightarrow>
        \<lparr> tr_name = type_name,
          extensions = map lower (dict_get (tc_extensions type_config) []),
          destination = dict_get (tc_destination type_config) type_name \<rparr>)"

text \<open>The loop over the rule definitions; a missing \<^verbatim>\<open>watch_directory\<close> or
  \<^verbatim>\<open>name\<close> raises \<^verbatim>\<open>KeyError\<close>, which ends the whole parse.\<close>

fun parse_rules_loop :: "(string \<Rightarrow> string) \<Rightarrow> rule_config list \<Rightarrow> error + WatchRule list" where
  "parse_rules_loop expanduser [] = Inr []"
| "parse_rules_loop expanduser (rule_config # rest) =
     (if \<not> dict_get (rc_enabled rule_config) True then parse_rules_loop expanduser rest
      else
        (let trules = map parse_type_rule (dict_get (rc_type_rules rule_config) []) in
         case rc_watch_directory rule_config of
           None \<Rightarrow> Inl KeyError
         | Some wd \<Rightarrow>
             (let watch_dir = parse_parts (expanduser wd);
                  source_dirs = dict_get (rc_source_directories rule_config) [''.'']
              in case rc_name rule_config of
                   None \<Rightarrow> Inl KeyError
                 | Some nm \<Rightarrow>
                     (case parse_rules_loop expanduser rest of
                        Inl e \<Rightarrow> Inl e
                      | Inr rules \<Rightarrow>
                          Inr (\<lparr> name = nm,
                                 watch_directory = watch_dir,
                                 enabled = dict_get (rc_enabled rule_config) True,
                                 redirect_domains =
                                   dict_get (rc_redirect_domains rule_config) [],
                                 type_rules = trules,
                                 redirect_destination =
                                   dict_get (rc_redirect_destination rule_config) ''tmp'',
                                 source_directories = source_dirs \<rparr> # rules)))))"

definition parse_watch_rules :: "(string \<Rightarrow> string) \<Rightarrow> config \<Rightarrow> error + WatchRule list" where
  "parse_watch_rules expanduser config =
     parse_rules_loop expanduser (dict_get (watch_rules config) [])"


subsection \<open>The file system\<close>

text \<open>
  A file system maps the paths that exist to their nodes. A node carries what the
  service reads: whether it is a directory, its size, and the outcome of reading the
  extended attribute \<^verbatim>\<open>com.apple.metadata:kMDItemWhereFroms\<close>: the read can raise, the
  attribute can be absent, its payload can fail to decode as a property list, or it
  decodes to a list of URLs. Every call on the file system is atomic, and the file system
  changes under the service only while it sleeps.
\<close>

datatype kind = Regular | Directory

datatype where_froms =
    AttrReadError
  | AttrAbsent
  | AttrUndecodable
  | AttrUrls "string list"

record node =
  kind :: kind
  st_size :: nat
  where_froms :: where_froms

type_synonym filesystem = "path \<rightharpoonup> node"

definition os_stat :: "filesystem \<Rightarrow> path \<Rightarrow> error + node" where
  "os_stat fs p = (case fs p of None \<Rightarrow> Inl FileNotFoundError | Some n \<Rightarrow> Inr n)"

text \<open>\<^verbatim>\<open>Path.exists\<close> and \<^verbatim>\<open>Path.is_dir\<close> answer \<^verbatim>\<open>False\<close> when the path is missing.\<close>

definition path_exists :: "filesystem \<Rightarrow> path \<Rightarrow> bool" where
  "path_exists fs p = (case os_stat fs p of Inl e \<Rightarrow> False | Inr n \<Rightarrow> True)"

definition is_dir :: "filesystem \<Rightarrow> path \<Rightarrow> bool" where
  "is_dir fs p = (case os_stat fs p of Inl e \<Rightarrow> False | Inr n \<Rightarrow> kind n = Directory)"

definition new_directory :: node where
  "new_directory = \<lparr> kind = Directory, st_size = 0, where_froms = AttrAbsent \<rparr>"

text \<open>\<^verbatim>\<open>os.mkdir\<close>: the parent must be a directory and the path must be free.\<close>

definition os_mkdir :: "filesystem \<Rightarrow> path \<Rightarrow> error + filesystem" where
  "os_mkdir fs p =
     (if fs p \<noteq> None then Inl FileExistsError
      else (case fs (parent p) of
              None \<Rightarrow> Inl FileNotFoundError
            | Some d \<Rightarrow>
                if kind d \<noteq> Directory then Inl NotADirectoryError
                else Inr (fs(p \<mapsto> new_directory))))"

text \<open>
  \<^verbatim>\<open>Path.mkdir(parents=True, exist_ok=True)\<close>, which is all of \<^verbatim>\<open>ensure_directory\<close>:
  \<^verbatim>\<open>os.mkdir\<close> is tried first; on \<^verbatim>\<open>FileNotFoundError\<close> the parent is created in
  the same way and the directory itself then without \<^verbatim>\<open>parents\<close>; any other error is
  raised again unless the path is a directory. The result is the error raised, if any,
  with the file system as it is then.
\<close>

definition mkdir_exist_ok :: "filesystem \<Rightarrow> path \<Rightarrow> error option \<times> filesystem" where
  "mkdir_exist_ok fs p =
     (case os_mkdir fs p of
        Inr fs' \<Rightarrow> (None, fs')
      | Inl e \<Rightarrow>
          if e = FileNotFoundError then (Some e, fs)
          else if is_dir fs p then (None, fs)
          else (Some e, fs))"

function ensure_directory :: "filesystem \<Rightarrow> path \<Rightarrow> error option \<times> filesystem" where
  "ensure_directory fs p =
     (case os_mkdir fs p of
        Inr fs' \<Rightarrow> (None, fs')
      | Inl e \<Rightarrow>
          if e = FileNotFoundError then
            (if parent p = p then (Some e, fs)
             else (case ensure_directory fs (parent p) of
                     (Some e', fs') \<Rightarrow> (Some e', fs')
                   | (None, fs') \<Rightarrow> mkdir_exist_ok fs' p))
          else if is_dir fs p then (None, fs)
          else (Some e, fs))"
  by pat_completeness auto
termination
proof (relation "measure (\<lambda>(fs, p). length p)")
  show "wf (measure (\<lambda>(fs :: filesystem, p :: path). length p))"
    by simp
next
  fix fs :: filesystem and p :: path and e :: error
  assume "parent p \<noteq> p"
  then have "p \<noteq> []"
    by (auto simp: parent_def)
  then show "((fs, parent p), (fs, p)) \<in> measure (\<lambda>(fs, p). length p)"
    by (simp add: parent_def)
qed

declare ensure_directory.simps [simp del]

text \<open>
  \<^verbatim>\<open>shutil.move(src, dst)\<close>. A destination that is a directory receives the source
  under its own name, unless that name is taken there. Otherwise the source is renamed
  to the destination: a regular file takes the place of whatever regular file is there,
  and a directory moves with everything below it (\<open>relocate\<close>). The move fails when
  the source is missing, when the parent of the target is not a directory, and when a
  directory would be moved into itself or onto a file.
\<close>

definition relocate :: "filesystem \<Rightarrow> path \<Rightarrow> path \<Rightarrow> filesystem" where
  "relocate fs src dst =
     (\<lambda>q. if take (length dst) q = dst then fs (src @ drop (length dst) q)
          else if take (length src) q = src then None
          else fs q)"

definition rename_or_copy :: "filesystem \<Rightarrow> path \<Rightarrow> path \<Rightarrow> error + filesystem" where
  "rename_or_copy fs src real_dst =
     (case os_stat fs src of
        Inl e \<Rightarrow> Inl e
      | Inr n \<Rightarrow>
          if \<not> is_dir fs (parent real_dst) then Inl FileNotFoundError
          else if kind n = Directory then
            (if take (length src) real_dst = src then Inl ShutilError
             else if path_exists fs real_dst then Inl FileExistsError
             else Inr (relocate fs src real_dst))
          else Inr ((fs(src := None))(real_dst \<mapsto> n)))"

definition shutil_move :: "filesystem \<Rightarrow> path \<Rightarrow> path \<Rightarrow> error + filesystem" where
  "shutil_move fs src dst =
     (if is_dir fs dst then
        (if src = dst then Inr fs
         else (let real_dst = joinpath dst (name_of src) in
               if path_exists fs real_dst then Inl ShutilError
               else rename_or_copy fs src real_dst))
      else rename_or_copy fs src dst)"

subsection \<open>Reading the download source\<close>

definition get_download_source :: "filesystem \<Rightarrow> path \<Rightarrow> string option" where
  "get_download_source fs file_path =
     (case os_stat fs file_path of
        Inl e \<Rightarrow> None
      | Inr n \<Rightarrow>
          (case where_froms n of
             AttrReadError \<Rightarrow> None
           | AttrAbsent \<Rightarrow> None
           | AttrUndecodable \<Rightarrow> None
           | AttrUrls urls \<Rightarrow> (case urls of [] \<Rightarrow> None | u # us \<Rightarrow> Some u)))"

subsection \<open>A free name, and the move\<close>

text \<open>
  The \<^verbatim>\<open>while True\<close> loop of \<^verbatim>\<open>generate_unique_filename\<close> ends only at a free name,
  so it is a partial function: \<open>None\<close> is the loop that runs for ever.
\<close>

definition new_name :: "string \<Rightarrow> string \<Rightarrow> nat \<Rightarrow> string" where
  "new_name stm sfx counter = stm @ ''_'' @ str_nat counter @ sfx"

partial_function (option) unique_loop ::
    "filesystem \<Rightarrow> path \<Rightarrow> string \<Rightarrow> string \<Rightarrow> nat \<Rightarrow> path option" where
  "unique_loop fs dest stm sfx counter =
     (if \<not> path_exists fs (joinpath dest (new_name stm sfx counter))
      then Some (joinpath dest (new_name stm sfx counter))
      else unique_loop fs dest stm sfx (counter + 1))"

definition generate_unique_filename :: "filesystem \<Rightarrow> path \<Rightarrow> string \<Rightarrow> path option" where
  "generate_unique_filename fs dest original_name =
     (if \<not> path_exists fs (joinpath dest original_name)
      then Some (joinpath dest original_name)
      else unique_loop fs dest
             (stem_of (name_of (parse_parts original_name)))
             (suffix_of (name_of (parse_parts original_name))) 1)"

text \<open>\<open>move_file\<close> answers whether the move succeeded, with the file system after it;
  every exception is caught and answers \<^verbatim>\<open>False\<close>.\<close>

definition move_file :: "filesystem \<Rightarrow> path \<Rightarrow> path \<Rightarrow> (bool \<times> filesystem) option" where
  "move_file fs source destination_dir =
     (case ensure_directory fs destination_dir of
        (Some e, fs1) \<Rightarrow> Some (False, fs1)
      | (None, fs1) \<Rightarrow>
          (case generate_unique_filename fs1 destination_dir (name_of source) of
             None \<Rightarrow> None
           | Some dest_file \<Rightarrow>
               (case shutil_move fs1 source dest_file of
                  Inl e \<Rightarrow> Some (False, fs1)
                | Inr fs2 \<Rightarrow> Some (True, fs2))))"

subsection \<open>Readiness and the processing of one file\<close>

text \<open>
  \<open>is_file_ready fs fs' p\<close>: \<open>fs\<close> is the file system at the first sample and \<open>fs'\<close>
  the file system after the sleep. The answer comes with the file system as it is when
  the function returns.
\<close>

definition is_file_ready :: "filesystem \<Rightarrow> filesystem \<Rightarrow> path \<Rightarrow> bool \<times> filesystem" where
  "is_file_ready fs fs' file_path =
     (if \<not> path_exists fs file_path then (False, fs)
      else (case os_stat fs file_path of
              Inl e \<Rightarrow> (False, fs)
            | Inr n1 \<Rightarrow>
                if \<not> path_exists fs' file_path then (False, fs')
                else (case os_stat fs' file_path of
                        Inl e \<Rightarrow> (False, fs')
                      | Inr n2 \<Rightarrow> (st_size n1 = st_size n2, fs'))))"

text \<open>\<open>process_file\<close> answers the file system it leaves; \<open>None\<close> only when the search
  for a free name does not end.\<close>

definition process_file :: "filesystem \<Rightarrow> filesystem \<Rightarrow> path \<Rightarrow> WatchRule \<Rightarrow> filesystem option" where
  "process_file fs fs' file_path rule =
     (if is_dir fs file_path then Some fs
      else if startswith (name_of file_path) ''.'' \<or> endswith (name_of file_path) ''.tmp''
      then Some fs
      else if name_of file_path \<in> set [''.DS_Store'', ''Thumbs.db'', ''.localized'']
      then Some fs
      else
        (case is_file_ready fs fs' file_path of
           (False, cur) \<Rightarrow> Some cur
         | (True, cur) \<Rightarrow>
             (let download_url = get_download_source cur file_path in
              if (case download_url of
                    None \<Rightarrow> False
                  | Some url \<Rightarrow> url \<noteq> [] \<and> matches_redirect_domain url (redirect_domains rule))
              then map_option snd
                     (move_file cur file_path
                        (joinpath (watch_directory rule) (redirect_destination rule)))
              else
                (case find_matching_type_rule file_path (type_rules rule) of
                   Some type_rule \<Rightarrow>
                     map_option snd
                       (move_file cur file_path
                          (joinpath (watch_directory rule) (destination type_rule)))
                 | None \<Rightarrow> Some cur))))"

subsection \<open>Example data\<close>

definition regular_file :: "nat \<Rightarrow> where_froms \<Rightarrow> node" where
  "regular_file sz attr = \<lparr> kind = Regular, st_size = sz, where_froms = attr \<rparr>"

definition photos_rule :: TypeRule where
  "photos_rule =
     \<lparr> tr_name = ''Photos'', extensions = [''.jpg'', ''.png''], destination = ''Photos'' \<rparr>"

definition screenshots_rule :: TypeRule where
  "screenshots_rule =
     \<lparr> tr_name = ''Screenshots'', extensions = [''.jpg''], destination = ''Screenshots'' \<rparr>"

definition downloads_rule :: WatchRule where
  "downloads_rule =
     \<lparr> name = ''Downloads'',
       watch_directory = [''w''],
       enabled = True,
       redirect_domains = [''ok''],
       type_rules = [photos_rule, screenshots_rule],
       redirect_destination = ''tmp'',
       source_directories = [''.''] \<rparr>"

text \<open>A watch directory holding an empty picture with the given provenance attribute,
  and a text file that no rule covers.\<close>

definition downloads_fs :: "where_froms \<Rightarrow> filesystem" where
  "downloads_fs attr =
     [[] \<mapsto> new_directory,
      [''w''] \<mapsto> new_directory,
      [''w'', ''IMG_1.JPG''] \<mapsto> regular_file 0 attr,
      [''w'', ''notes.md''] \<mapsto> regular_file 12 AttrAbsent]"

text \<open>A destination \<^verbatim>\<open>out\<close> that holds \<^verbatim>\<open>a.txt\<close>, and two more files of that name
  elsewhere.\<close>

definition outbox_fs :: filesystem where
  "outbox_fs =
     [[] \<mapsto> new_directory,
      [''in''] \<mapsto> new_directory,
      [''in'', ''a.txt''] \<mapsto> regular_file 3 AttrAbsent,
      [''in2''] \<mapsto> new_directory,
      [''in2'', ''a.txt''] \<mapsto> regular_file 4 AttrAbsent,
      [''out''] \<mapsto> new_directory,
      [''out'', ''a.txt''] \<mapsto> regular_file 1 AttrAbsent]"

text \<open>The same file system after \<^verbatim>\<open>in/a.txt\<close> has been moved to \<^verbatim>\<open>out\<close>.\<close>

definition outbox_after_first :: filesystem where
  "outbox_after_first =
     (outbox_fs([''in'', ''a.txt''] := None))
       ([''out'', ''a_1.txt''] \<mapsto> regular_file 3 AttrAbsent)"

text \<open>A configuration with a disabled rule and a rule whose extensions are written in
  upper and mixed case, and the rule the second one parses to.\<close>

definition example_config :: config where
  "example_config =
     \<lparr> watch_rules = Some
         [\<lparr> rc_name = Some ''Old'', rc_watch_directory = Some ''/old'',
             rc_enabled = Some False, rc_redirect_domains = None, rc_type_rules = None,
             rc_redirect_destination = None, rc_source_directories = None \<rparr>,
          \<lparr> rc_name = Some ''Downloads'', rc_watch_directory = Some ''/w'',
             rc_enabled = None, rc_redirect_domains = Some [''ok''],
             rc_type_rules =
               Some [(''Photos'',
                      \<lparr> tc_extensions = Some [''.JPG'', ''.Png''], tc_destination = None \<rparr>)],
             rc_redirect_destination = None, rc_source_directories = None \<rparr>] \<rparr>"

definition example_parsed :: WatchRule where
  "example_parsed =
     \<lparr> name = ''Downloads'',
       watch_directory = [''w''],
       enabled = True,
       redirect_domains = [''ok''],
       type_rules =
         [\<lparr> tr_name = ''Photos'', extensions = [''.jpg'', ''.png''],
            destination = ''Photos'' \<rparr>],
       redirect_destination = ''tmp'',
       source_directories = [''.''] \<rparr>"

section \<open>Properties\<close>

text \<open>The unfolding of \<open>lower_char\<close> on a given character.\<close>

lemmas lower_char_eval = lower_char_def upper_letters_def lower_letters_def

subsection \<open>Type matching takes the first rule\<close>

lemma type_rule_loop_None: "type_rule_loop ext rules = None \<longleftrightarrow> (\<forall>q \<in> set rules. ext \<notin> set (extensions q))"
  by (induction rules) auto

lemma type_rule_loop_Some:
  "type_rule_loop ext rules = Some r \<longleftrightarrow>
     (\<exists>pre post. rules = pre @ r # post \<and> ext \<in> set (extensions r)
        \<and> (\<forall>q \<in> set pre. ext \<notin> set (extensions q)))"
proof (induction rules)
  case Nil
  then show ?case by simp
next
  case (Cons a rules)
  show ?case
  proof (cases "ext \<in> set (extensions a)")
    case True
    have "(\<exists>pre post. a # rules = pre @ r # post \<and> ext \<in> set (extensions r)
        \<and> (\<forall>q \<in> set pre. ext \<notin> set (extensions q))) \<longleftrightarrow> a = r"
    proof
      assume "\<exists>pre post. a # rules = pre @ r # post \<and> ext \<in> set (extensions r)
        \<and> (\<forall>q \<in> set pre. ext \<notin> set (extensions q))"
      then obtain pre post where h: "a # rules = pre @ r # post" "\<forall>q \<in> set pre. ext \<notin> set (extensions q)"
        by blast
      show "a = r"
      proof (cases pre)
        case Nil
        with h show ?thesis by simp
      next
        case (Cons b pre')
        with h True show ?thesis by auto
      qed
    next
      assume "a = r"
      with True have "a # rules = [] @ r # rules \<and> ext \<in> set (extensions r) \<and> (\<forall>q \<in> set []. ext \<notin> set (extensions q))"
        by simp
      then show "\<exists>pre post. a # rules = pre @ r # post \<and> ext \<in> set (extensions r)
        \<and> (\<forall>q \<in> set pre. ext \<notin> set (extensions q))" by blast
    qed
    with True show ?thesis by simp
  next
    case False
    have "(\<exists>pre post. a # rules = pre @ r # post \<and> ext \<in> set (extensions r)
        \<and> (\<forall>q \<in> set pre. ext \<notin> set (extensions q))) \<longleftrightarrow> 
      (\<exists>pre post. rules = pre @ r # post \<and> ext \<in> set (extensions r)
        \<and> (\<forall>q \<in> set pre. ext \<notin> set (extensions q)))" (is "?L \<longleftrightarrow> ?R")
    proof
      assume ?L
      then obtain pre post where h: "a # rules = pre @ r # post" "ext \<in> set (extensions r)" "\<forall>q \<in> set pre. ext \<notin> set (extensions q)"
        by blast
      show ?R
      proof (cases pre)
        case Nil
        with h False show ?thesis by simp
      next
        case (Cons b pre')
        with h have "rules = pre' @ r # post \<and> ext \<in> set (extensions r) \<and> (\<forall>q \<in> set pre'. ext \<notin> set (extensions q))" by simp
        then show ?thesis by blast
      qed
    next
      assume ?R
      then obtain pre post where h: "rules = pre @ r # post" "ext \<in> set (extensions r)" "\<forall>q \<in> set pre. ext \<notin> set (extensions q)"
        by blast
      with False have "a # rules = (a # pre) @ r # post \<and> ext \<in> set (extensions r) \<and> (\<forall>q \<in> set (a # pre). ext \<notin> set (extensions q))"
        by simp
      then show ?L by blast
    qed
    with False Cons.IH show ?thesis by simp
  qed
qed

text \<open>
  C3. \<open>find_matching_type_rule\<close> answers a rule exactly when the rule list splits into
  rules that do not list the lower-cased extension of the file, then that rule, which
  lists it, then any rules at all: the first rule in declaration order wins, whatever the
  later rules list. It answers nothing exactly when no rule lists the extension.
\<close>

theorem find_matching_type_rule_first_match:
  "(find_matching_type_rule file_path rules = Some r \<longleftrightarrow>
      (\<exists>pre post. rules = pre @ r # post
         \<and> lower (suffix_of (name_of file_path)) \<in> set (extensions r)
         \<and> (\<forall>q \<in> set pre. lower (suffix_of (name_of file_path)) \<notin> set (extensions q))))
   \<and> (find_matching_type_rule file_path rules = None \<longleftrightarrow>
      (\<forall>q \<in> set rules. lower (suffix_of (name_of file_path)) \<notin> set (extensions q)))"
  unfolding find_matching_type_rule_def get_file_extension_def
  using type_rule_loop_Some type_rule_loop_None by blast

text \<open>With \<^verbatim>\<open>.jpg\<close> in \<^verbatim>\<open>Photos\<close> and then in \<^verbatim>\<open>Screenshots\<close>, a \<^verbatim>\<open>.JPG\<close> file
  resolves to \<^verbatim>\<open>Photos\<close>.\<close>

theorem find_matching_type_rule_first_match_witness:
  "find_matching_type_rule [''Users'', ''me'', ''Downloads'', ''IMG_1.JPG'']
     [\<lparr> tr_name = ''Photos'', extensions = [''.jpg'', ''.png''], destination = ''Photos'' \<rparr>,
      \<lparr> tr_name = ''Screenshots'', extensions = [''.jpg''], destination = ''Screenshots'' \<rparr>]
   = Some \<lparr> tr_name = ''Photos'', extensions = [''.jpg'', ''.png''], destination = ''Photos'' \<rparr>"
proof -
  let ?photos = "\<lparr> tr_name = ''Photos'', extensions = [''.jpg'', ''.png''], destination = ''Photos'' \<rparr>"
  let ?shots = "\<lparr> tr_name = ''Screenshots'', extensions = [''.jpg''], destination = ''Screenshots'' \<rparr>"
  let ?p = "[''Users'', ''me'', ''Downloads'', ''IMG_1.JPG'']"
  have ext: "lower (suffix_of (name_of ?p)) = ''.jpg''"
    by (simp add: name_of_def suffix_of_def lower_def lower_char_eval)
  have "[?photos, ?shots] = [] @ ?photos # [?shots]
      \<and> lower (suffix_of (name_of ?p)) \<in> set (extensions ?photos)
      \<and> (\<forall>q \<in> set []. lower (suffix_of (name_of ?p)) \<notin> set (extensions q))"
    unfolding ext by simp
  then have "\<exists>pre post. [?photos, ?shots] = pre @ ?photos # post
      \<and> lower (suffix_of (name_of ?p)) \<in> set (extensions ?photos)
      \<and> (\<forall>q \<in> set pre. lower (suffix_of (name_of ?p)) \<notin> set (extensions q))"
    by blast
  then show ?thesis
    using find_matching_type_rule_first_match [of ?p "[?photos, ?shots]" ?photos] by blast
qed

subsection \<open>Redirect domains are matched as lower-cased substrings\<close>

lemma startswith_iff: "startswith s p \<longleftrightarrow> (\<exists>post. s = p @ post)"
  by (induction s p rule: startswith.induct) auto

lemma str_in_iff: "str_in pat s \<longleftrightarrow> (\<exists>pre post. s = pre @ pat @ post)"
proof (induction s)
  case Nil
  then show ?case by auto
next
  case (Cons c cs)
  have "(\<exists>pre post. c # cs = pre @ pat @ post) \<longleftrightarrow>
        (\<exists>post. c # cs = pat @ post) \<or> (\<exists>pre post. cs = pre @ pat @ post)"
    (is "?L \<longleftrightarrow> ?A \<or> ?B")
  proof
    assume ?L
    then obtain pre post where h: "c # cs = pre @ pat @ post" by blast
    show "?A \<or> ?B"
    proof (cases pre)
      case Nil
      with h show ?thesis by auto
    next
      case (Cons x pre')
      with h have "cs = pre' @ pat @ post" by simp
      then show ?thesis by blast
    qed
  next
    assume "?A \<or> ?B"
    then show ?L
    proof
      assume ?A
      then obtain post where "c # cs = [] @ pat @ post" by auto
      then show ?L by blast
    next
      assume ?B
      then obtain pre post where "cs = pre @ pat @ post" by blast
      then have "c # cs = (c # pre) @ pat @ post" by simp
      then show ?L by blast
    qed
  qed
  with Cons.IH show ?case
    by (simp only: str_in.simps startswith_iff)
qed

lemma lower_char_fixed: "\<forall>l \<in> set lower_letters. lower_char l = l"
  by (simp add: lower_letters_def lower_char_def upper_letters_def)

lemma lower_char_idem: "lower_char (lower_char c) = lower_char c"
proof (cases "map_of (zip upper_letters lower_letters) c")
  case None
  then show ?thesis
    by (simp add: lower_char_def)
next
  case (Some l)
  then have "l \<in> set lower_letters"
    by (auto dest: map_of_SomeD set_zip_rightD)
  with lower_char_fixed have "lower_char l = l"
    by blast
  with Some show ?thesis
    by (simp add: lower_char_def [of c])
qed

lemma lower_idem: "lower (lower s) = lower s"
  by (simp add: lower_def lower_char_idem)

lemma lower_eq_Nil: "lower s = [] \<longleftrightarrow> s = []"
  by (simp add: lower_def)

lemma redirect_loop_iff:
  "redirect_loop d patterns \<longleftrightarrow> (\<exists>pattern \<in> set patterns. str_in (lower pattern) d)"
  by (induction patterns) auto

lemma matches_redirect_domain_iff:
  "matches_redirect_domain url domains \<longleftrightarrow>
     url \<noteq> [] \<and> (\<exists>netloc. urlparse_netloc url = Inr netloc \<and> netloc \<noteq> []
        \<and> (\<exists>pattern \<in> set domains. str_in (lower pattern) (lower netloc)))"
  by (auto simp: matches_redirect_domain_def extract_domain_def redirect_loop_iff lower_idem
      lower_eq_Nil split: sum.splits)

lemma redirect_loop_lower_cong:
  "map lower ps = map lower qs \<Longrightarrow> redirect_loop d ps = redirect_loop d qs"
proof (induction ps arbitrary: qs)
  case Nil
  then show ?case by simp
next
  case (Cons p ps)
  then obtain q qs' where "qs = q # qs'" "lower p = lower q" "map lower ps = map lower qs'"
    by (cases qs) auto
  with Cons.IH show ?case by simp
qed

lemmas url_eval = urlparse_netloc_def split_scheme_def
  c0_control_or_space_def unsafe_url_byte_def scheme_chars_def ascii_letters_def lower_def lower_char_eval

text \<open>A URL of the form scheme, \<^verbatim>\<open>://\<close>, host, \<^verbatim>\<open>/\<close>, path: the network location is
  the host, whatever the path is.\<close>

lemma find_char_append:
  "c \<notin> set xs \<Longrightarrow> find_char (xs @ c # ys) c = int (length xs)"
  by (induction xs) auto

lemma ascii_letters_facts:
  "\<forall>c \<in> set ascii_letters.
     c \<in> set scheme_chars \<and> \<not> c0_control_or_space c \<and> \<not> unsafe_url_byte c
     \<and> c \<noteq> CHR '':''"
  by (simp add: ascii_letters_def scheme_chars_def c0_control_or_space_def unsafe_url_byte_def)

lemma split_scheme_letters:
  assumes "sch \<noteq> []" and "set sch \<subseteq> set ascii_letters"
  shows "split_scheme (sch @ CHR '':'' # rest) = rest"
proof -
  from assms(2) ascii_letters_facts have c: "CHR '':'' \<notin> set sch"
    and sc: "list_all (\<lambda>c. c \<in> set scheme_chars) sch"
    by (auto simp: list_all_iff)
  from assms have h: "hd (sch @ CHR '':'' # rest) \<in> set ascii_letters"
    by (cases sch) auto
  from assms(1) have "0 < int (length sch)" by simp
  with find_char_append [OF c, of rest] h sc show ?thesis
    by (simp add: split_scheme_def)
qed

lemma urlparse_netloc_standard:
  assumes sch: "sch \<noteq> []" "set sch \<subseteq> set ascii_letters"
    and host: "\<forall>c \<in> set host. c \<notin> set ''/?#[]'' \<and> \<not> unsafe_url_byte c"
  shows "urlparse_netloc (sch @ ''://'' @ host @ ''/'' @ rest) = Inr host"
proof -
  let ?rest = "filter (\<lambda>c. \<not> unsafe_url_byte c) rest"
  from sch ascii_letters_facts have l: "\<not> c0_control_or_space (hd sch)"
    and u: "\<forall>c \<in> set sch. \<not> unsafe_url_byte c"
    by (cases sch; auto)+
  from sch(1) l have 1: "dropWhile c0_control_or_space (sch @ ''://'' @ host @ ''/'' @ rest)
      = sch @ ''://'' @ host @ ''/'' @ rest"
    by (cases sch) auto
  from u host have 2: "filter (\<lambda>c. \<not> unsafe_url_byte c) (sch @ ''://'' @ host @ ''/'' @ rest)
      = sch @ CHR '':'' # (''//'' @ host @ ''/'' @ ?rest)"
    by (simp add: unsafe_url_byte_def filter_id_conv)
  have 3: "split_scheme (sch @ CHR '':'' # (''//'' @ host @ ''/'' @ ?rest))
      = ''//'' @ host @ ''/'' @ ?rest"
    by (rule split_scheme_letters [OF sch])
  have "takeWhile (\<lambda>c. c \<notin> set ''/?#'') (host @ CHR ''/'' # ?rest)
      = takeWhile (\<lambda>c. c \<notin> set ''/?#'') host"
    by (rule takeWhile_tail) simp
  also from host have "\<dots> = host"
    by (auto simp: takeWhile_eq_all_conv)
  finally have 4: "takeWhile (\<lambda>c. c \<notin> set ''/?#'') (host @ CHR ''/'' # ?rest) = host" .
  from host have 5: "CHR ''['' \<notin> set host" "CHR '']'' \<notin> set host"
    by auto
  show ?thesis
    unfolding urlparse_netloc_def Let_def 1 2 3 using 4 5 by simp
qed


lemma matches_redirect_domain_standard:
  assumes "sch \<noteq> []" and "set sch \<subseteq> set ascii_letters"
    and "\<forall>c \<in> set host. c \<notin> set ''/?#[]'' \<and> \<not> unsafe_url_byte c"
  shows "matches_redirect_domain (sch @ ''://'' @ host @ ''/'' @ rest) domains \<longleftrightarrow>
           host \<noteq> [] \<and> (\<exists>pattern \<in> set domains. str_in (lower pattern) (lower host))"
  unfolding matches_redirect_domain_iff urlparse_netloc_standard [OF assms]
  using assms(1) by simp

text \<open>
  C5. \<open>matches_redirect_domain\<close> holds exactly when the URL is not empty, its network
  location parses and is not empty, and some pattern, lower-cased, occurs as a contiguous
  block in the lower-cased network location. Patterns that agree after lower-casing give
  the same answer. For a URL made of a scheme of letters, \<^verbatim>\<open>://\<close>, a host without
  \<^verbatim>\<open>/?#[]\<close>, tabs and line breaks, \<^verbatim>\<open>/\<close> and any path, the network location is the
  host, and the URL matches exactly when the host is not empty and holds a pattern in
  that way: scheme and path play no part. The pattern \<^verbatim>\<open>ok\<close> matches the host
  \<^verbatim>\<open>facebook.com\<close>; it does not match when it occurs only in the path, the query, the
  fragment or the scheme, nor in \<^verbatim>\<open>http://[ok]/x\<close>, whose bracketed host is not an IP
  literal, so that the parse raises; the bracketed IPv6 host \<^verbatim>\<open>[::1]\<close> is matched by
  \<^verbatim>\<open>::1\<close>.
\<close>

theorem matches_redirect_domain_substring:
  "(matches_redirect_domain url domains \<longleftrightarrow>
      url \<noteq> [] \<and> (\<exists>netloc. urlparse_netloc url = Inr netloc \<and> netloc \<noteq> []
         \<and> (\<exists>pattern \<in> set domains. \<exists>pre post. lower netloc = pre @ lower pattern @ post)))
   \<and> (map lower domains = map lower domains' \<longrightarrow>
        matches_redirect_domain url domains = matches_redirect_domain url domains')
   \<and> (sch \<noteq> [] \<and> set sch \<subseteq> set ascii_letters
        \<and> (\<forall>c \<in> set host. c \<notin> set ''/?#[]'' \<and> \<not> unsafe_url_byte c)
        \<longrightarrow> urlparse_netloc (sch @ ''://'' @ host @ ''/'' @ rest) = Inr host
            \<and> (matches_redirect_domain (sch @ ''://'' @ host @ ''/'' @ rest) domains \<longleftrightarrow>
                 host \<noteq> []
                 \<and> (\<exists>pattern \<in> set domains. \<exists>pre post.
                        lower host = pre @ lower pattern @ post)))
   \<and> matches_redirect_domain ''https://facebook.com/video.mp4'' [''ok'']
   \<and> \<not> matches_redirect_domain ''https://example.com/ok/video.mp4'' [''ok'']
   \<and> \<not> matches_redirect_domain ''https://example.com/?from=ok#ok'' [''ok'']
   \<and> \<not> matches_redirect_domain ''ok://example.com/'' [''ok'']
   \<and> \<not> matches_redirect_domain ''http://[ok]/x'' [''ok'']
   \<and> matches_redirect_domain ''http://[::1]:8080/x'' [''::1'']"
proof (intro conjI impI)
  show "matches_redirect_domain url domains \<longleftrightarrow>
      url \<noteq> [] \<and> (\<exists>netloc. urlparse_netloc url = Inr netloc \<and> netloc \<noteq> []
         \<and> (\<exists>pattern \<in> set domains. \<exists>pre post. lower netloc = pre @ lower pattern @ post))"
    by (simp only: matches_redirect_domain_iff str_in_iff)
next
  assume "map lower domains = map lower domains'"
  then show "matches_redirect_domain url domains = matches_redirect_domain url domains'"
    by (simp add: matches_redirect_domain_def redirect_loop_lower_cong [of domains domains']
        split: option.splits)
next
  assume a: "sch \<noteq> [] \<and> set sch \<subseteq> set ascii_letters
        \<and> (\<forall>c \<in> set host. c \<notin> set ''/?#[]'' \<and> \<not> unsafe_url_byte c)"
  then show "urlparse_netloc (sch @ ''://'' @ host @ ''/'' @ rest) = Inr host"
    by (intro urlparse_netloc_standard) simp_all
  from a have "matches_redirect_domain (sch @ ''://'' @ host @ ''/'' @ rest) domains \<longleftrightarrow>
           host \<noteq> [] \<and> (\<exists>pattern \<in> set domains. str_in (lower pattern) (lower host))"
    by (intro matches_redirect_domain_standard) simp_all
  then show "matches_redirect_domain (sch @ ''://'' @ host @ ''/'' @ rest) domains \<longleftrightarrow>
                 host \<noteq> []
                 \<and> (\<exists>pattern \<in> set domains. \<exists>pre post.
                        lower host = pre @ lower pattern @ post)"
    by (simp only: str_in_iff)
next
  show "matches_redirect_domain ''https://facebook.com/video.mp4'' [''ok'']"
    by code_simp
  show "\<not> matches_redirect_domain ''https://example.com/ok/video.mp4'' [''ok'']"
    by code_simp
  show "\<not> matches_redirect_domain ''https://example.com/?from=ok#ok'' [''ok'']"
    by code_simp
  show "\<not> matches_redirect_domain ''ok://example.com/'' [''ok'']"
    by code_simp
  show "\<not> matches_redirect_domain ''http://[ok]/x'' [''ok'']"
    by code_simp
  show "matches_redirect_domain ''http://[::1]:8080/x'' [''::1'']"
    by code_simp
qed

text \<open>A pattern in upper case matches a host written in mixed case. The host of
  \<^verbatim>\<open>https://example.com/ok/video.mp4\<close> is \<^verbatim>\<open>example.com\<close>, which \<^verbatim>\<open>ok\<close> does not
  match, while it matches the host \<^verbatim>\<open>Look.example.com\<close>.\<close>

theorem matches_redirect_domain_substring_witness:
  "map lower [''BOOK.c''] = map lower [''book.C'']
   \<and> matches_redirect_domain ''HTTPS://www.FaceBook.com/video.mp4'' [''BOOK.c'']
   \<and> matches_redirect_domain ''HTTPS://www.FaceBook.com/video.mp4'' [''book.C'']
   \<and> urlparse_netloc ''https://example.com/ok/video.mp4'' = Inr ''example.com''
   \<and> \<not> matches_redirect_domain ''https://example.com/ok/video.mp4'' [''ok'']
   \<and> matches_redirect_domain ''https://Look.example.com/video.mp4'' [''ok'']"
proof -
  let ?url = "''HTTPS://www.FaceBook.com/video.mp4''"
  have l: "map lower [''BOOK.c''] = map lower [''book.C'']"
    by (simp add: lower_def lower_char_eval)
  have n: "urlparse_netloc ?url = Inr ''www.FaceBook.com''"
    by (simp add: url_eval)
  have "lower ''www.FaceBook.com'' = ''www.face'' @ lower ''BOOK.c'' @ ''om''"
    by (simp add: lower_def lower_char_eval)
  then have "\<exists>pattern \<in> set [''BOOK.c'']. \<exists>pre post. lower ''www.FaceBook.com'' = pre @ lower pattern @ post"
    by (metis list.set_intros(1))
  with n have m: "matches_redirect_domain ?url [''BOOK.c'']"
    using matches_redirect_domain_substring [of ?url "[''BOOK.c'']" "[''book.C'']"]
    by blast
  with l have m': "matches_redirect_domain ?url [''book.C'']"
    using matches_redirect_domain_substring [of ?url "[''BOOK.c'']" "[''book.C'']"]
    by blast
  \<comment> \<open>the standard form: scheme, host, path\<close>
  have s: "''https'' \<noteq> [] \<and> set ''https'' \<subseteq> set ascii_letters"
    by (simp add: ascii_letters_def)
  have h1: "\<forall>c \<in> set ''example.com''. c \<notin> set ''/?#[]'' \<and> \<not> unsafe_url_byte c"
    by (simp add: unsafe_url_byte_def)
  have h2: "\<forall>c \<in> set ''Look.example.com''. c \<notin> set ''/?#[]'' \<and> \<not> unsafe_url_byte c"
    by (simp add: unsafe_url_byte_def)
  have u1: "''https'' @ ''://'' @ ''example.com'' @ ''/'' @ ''ok/video.mp4''
      = ''https://example.com/ok/video.mp4''"
    and u2: "''https'' @ ''://'' @ ''Look.example.com'' @ ''/'' @ ''video.mp4''
      = ''https://Look.example.com/video.mp4''"
    by simp_all
  note t1 = matches_redirect_domain_substring
      [where sch = "''https''" and host = "''example.com''" and rest = "''ok/video.mp4''"
         and domains = "[''ok'']", unfolded u1]
  note t2 = matches_redirect_domain_substring
      [where sch = "''https''" and host = "''Look.example.com''" and rest = "''video.mp4''"
         and domains = "[''ok'']", unfolded u2]
  from t1 s h1 have p1: "urlparse_netloc ''https://example.com/ok/video.mp4'' = Inr ''example.com''"
    by blast
  have "\<not> str_in (lower ''ok'') (lower ''example.com'')"
    by (simp add: lower_def lower_char_eval)
  then have "\<not> (\<exists>pattern \<in> set [''ok'']. \<exists>pre post.
      lower ''example.com'' = pre @ lower pattern @ post)"
    by (simp add: str_in_iff)
  with t1 s h1 have n1: "\<not> matches_redirect_domain ''https://example.com/ok/video.mp4'' [''ok'']"
    by blast
  have "str_in (lower ''ok'') (lower ''Look.example.com'')"
    by (simp add: lower_def lower_char_eval)
  then have "''Look.example.com'' \<noteq> [] \<and> (\<exists>pattern \<in> set [''ok'']. \<exists>pre post.
      lower ''Look.example.com'' = pre @ lower pattern @ post)"
    by (simp add: str_in_iff)
  with t2 s h2 have m2: "matches_redirect_domain ''https://Look.example.com/video.mp4'' [''ok'']"
    by blast
  from l m m' p1 n1 m2 show ?thesis by blast
qed

subsection \<open>Readiness and the checks of \<open>process_file\<close>\<close>

lemma is_file_ready_True_iff:
  "is_file_ready fs fs' p = (True, cur) \<longleftrightarrow>
     cur = fs' \<and> (\<exists>n1 n2. fs p = Some n1 \<and> fs' p = Some n2 \<and> st_size n1 = st_size n2)"
  by (auto simp: is_file_ready_def path_exists_def os_stat_def split: option.splits)

lemma is_file_ready_False:
  "is_file_ready fs fs' p = (False, cur) \<Longrightarrow> cur = fs \<or> cur = fs'"
  by (auto simp: is_file_ready_def path_exists_def os_stat_def split: option.splits if_splits)

lemma process_file_checked:
  assumes "\<not> is_dir fs p"
    and "\<not> startswith (name_of p) ''.''"
    and "\<not> endswith (name_of p) ''.tmp''"
    and "name_of p \<notin> set [''.DS_Store'', ''Thumbs.db'', ''.localized'']"
    and "is_file_ready fs fs' p = (True, cur)"
  shows "process_file fs fs' p rule =
     (if (case get_download_source cur p of
            None \<Rightarrow> False
          | Some url \<Rightarrow> url \<noteq> [] \<and> matches_redirect_domain url (redirect_domains rule))
      then map_option snd
             (move_file cur p (joinpath (watch_directory rule) (redirect_destination rule)))
      else
        (case find_matching_type_rule p (type_rules rule) of
           Some type_rule \<Rightarrow>
             map_option snd
               (move_file cur p (joinpath (watch_directory rule) (destination type_rule)))
         | None \<Rightarrow> Some cur))"
  using assms by (simp add: process_file_def)

lemma process_file_not_ready:
  assumes "is_file_ready fs fs' p = (False, cur)"
  shows "process_file fs fs' p rule = Some fs \<or> process_file fs fs' p rule = Some cur"
  using assms by (simp add: process_file_def)


lemma is_file_ready_fst:
  "fst (is_file_ready fs fs' p) \<Longrightarrow> is_file_ready fs fs' p = (True, fs')"
  by (auto simp: is_file_ready_def path_exists_def os_stat_def split: option.splits if_splits)

text \<open>Unfolding sets for the evaluation of the examples.\<close>

lemmas fs_eval = path_exists_def os_stat_def is_dir_def os_mkdir_def parent_def mkdir_exist_ok_def
  new_directory_def regular_file_def ensure_directory.simps shutil_move_def rename_or_copy_def
  get_download_source_def is_file_ready_def
lemmas name_eval = joinpath_def parse_parts_def name_of_def stem_of_def suffix_of_def new_name_def
  str_nat.simps digit_def endswith_def lower_def lower_char_eval
lemmas move_eval = move_file_def generate_unique_filename_def unique_loop.simps
lemmas url_match_eval = matches_redirect_domain_def extract_domain_def url_eval

lemmas rule_eval = downloads_rule_def photos_rule_def screenshots_rule_def
  find_matching_type_rule_def get_file_extension_def
subsection \<open>A file that nothing matches stays where it is\<close>

text \<open>
  C4. A path that is not a directory, whose name passes the name checks, that is ready,
  whose download source (if any) matches no redirect domain and whose extension no type
  rule lists: \<open>process_file\<close> leaves the file system exactly as it found it after the
  readiness wait, and the file is still at its path.
\<close>

theorem process_file_no_match_unchanged:
  assumes "\<not> is_dir fs p"
    and "\<not> startswith (name_of p) ''.''"
    and "\<not> endswith (name_of p) ''.tmp''"
    and "name_of p \<notin> set [''.DS_Store'', ''Thumbs.db'', ''.localized'']"
    and "fst (is_file_ready fs fs' p)"
    and "\<forall>url. get_download_source fs' p = Some url
           \<longrightarrow> \<not> matches_redirect_domain url (redirect_domains rule)"
    and "find_matching_type_rule p (type_rules rule) = None"
  shows "process_file fs fs' p rule = Some fs' \<and> path_exists fs' p"
proof -
  from assms(5) have r: "is_file_ready fs fs' p = (True, fs')"
    by (rule is_file_ready_fst)
  then have e: "path_exists fs' p"
    by (auto simp: is_file_ready_True_iff path_exists_def os_stat_def)
  from assms(6) have "\<not> (case get_download_source fs' p of
            None \<Rightarrow> False
          | Some url \<Rightarrow> url \<noteq> [] \<and> matches_redirect_domain url (redirect_domains rule))"
    by (simp split: option.splits)
  with assms(7) have "process_file fs fs' p rule = Some fs'"
    by (simp add: process_file_checked [OF assms(1-4) r])
  with e show ?thesis by simp
qed

text \<open>The text file of the example directory, which has no provenance and an extension
  that no rule lists.\<close>

theorem process_file_no_match_unchanged_witness:
  "\<not> is_dir (downloads_fs AttrAbsent) [''w'', ''notes.md'']
   \<and> \<not> startswith (name_of [''w'', ''notes.md'']) ''.''
   \<and> \<not> endswith (name_of [''w'', ''notes.md'']) ''.tmp''
   \<and> name_of [''w'', ''notes.md''] \<notin> set [''.DS_Store'', ''Thumbs.db'', ''.localized'']
   \<and> fst (is_file_ready (downloads_fs AttrAbsent) (downloads_fs AttrAbsent) [''w'', ''notes.md''])
   \<and> get_download_source (downloads_fs AttrAbsent) [''w'', ''notes.md''] = None
   \<and> find_matching_type_rule [''w'', ''notes.md''] (type_rules downloads_rule) = None
   \<and> process_file (downloads_fs AttrAbsent) (downloads_fs AttrAbsent) [''w'', ''notes.md'']
        downloads_rule = Some (downloads_fs AttrAbsent)
   \<and> path_exists (downloads_fs AttrAbsent) [''w'', ''notes.md'']"
proof -
  let ?fs = "downloads_fs AttrAbsent" and ?p = "[''w'', ''notes.md'']"
  have h1: "\<not> is_dir ?fs ?p"
    by (simp add: downloads_fs_def fs_eval)
  have h2: "\<not> startswith (name_of ?p) ''.''"
    by (simp add: name_eval)
  have h3: "\<not> endswith (name_of ?p) ''.tmp''"
    by (simp add: name_eval)
  have h4: "name_of ?p \<notin> set [''.DS_Store'', ''Thumbs.db'', ''.localized'']"
    by (simp add: name_eval)
  have h5: "fst (is_file_ready ?fs ?fs ?p)"
    by (simp add: downloads_fs_def fs_eval)
  have h6: "get_download_source ?fs ?p = None"
    by (simp add: downloads_fs_def fs_eval)
  then have h6': "\<forall>url. get_download_source ?fs ?p = Some url
           \<longrightarrow> \<not> matches_redirect_domain url (redirect_domains downloads_rule)"
    by simp
  have h7: "find_matching_type_rule ?p (type_rules downloads_rule) = None"
    by (simp add: rule_eval name_eval)
  from process_file_no_match_unchanged [OF h1 h2 h3 h4 h5 h6' h7] h1 h2 h3 h4 h5 h6 h7
  show ?thesis by blast
qed

subsection \<open>Readiness\<close>

text \<open>
  C6. \<open>is_file_ready\<close> answers true exactly when the path exists at the first sample
  and after the wait and the two sizes are equal. A file of size zero at both samples is
  ready. A path that is gone after the wait is not ready, and \<open>process_file\<close> then
  returns one of the two file systems it was given: nothing is moved.
\<close>

theorem is_file_ready_iff_stable:
  "(fst (is_file_ready fs fs' p) \<longleftrightarrow>
      path_exists fs p \<and> path_exists fs' p
      \<and> (\<exists>n1 n2. os_stat fs p = Inr n1 \<and> os_stat fs' p = Inr n2 \<and> st_size n1 = st_size n2))
   \<and> (os_stat fs p = Inr n1 \<and> os_stat fs' p = Inr n2 \<and> st_size n1 = 0 \<and> st_size n2 = 0
        \<longrightarrow> fst (is_file_ready fs fs' p))
   \<and> (\<not> path_exists fs' p \<longrightarrow>
        \<not> fst (is_file_ready fs fs' p)
        \<and> (process_file fs fs' p rule = Some fs \<or> process_file fs fs' p rule = Some fs'))"
proof (intro conjI impI)
  show "fst (is_file_ready fs fs' p) \<longleftrightarrow>
      path_exists fs p \<and> path_exists fs' p
      \<and> (\<exists>n1 n2. os_stat fs p = Inr n1 \<and> os_stat fs' p = Inr n2 \<and> st_size n1 = st_size n2)"
    by (auto simp: is_file_ready_def path_exists_def split: sum.splits)
next
  assume "os_stat fs p = Inr n1 \<and> os_stat fs' p = Inr n2 \<and> st_size n1 = 0 \<and> st_size n2 = 0"
  then show "fst (is_file_ready fs fs' p)"
    by (simp add: is_file_ready_def path_exists_def)
next
  assume "\<not> path_exists fs' p"
  then show "\<not> fst (is_file_ready fs fs' p)"
    by (auto simp: is_file_ready_def split: sum.splits)
next
  assume "\<not> path_exists fs' p"
  then have "\<not> fst (is_file_ready fs fs' p)"
    by (auto simp: is_file_ready_def split: sum.splits)
  then obtain cur where c: "is_file_ready fs fs' p = (False, cur)"
    by (cases "is_file_ready fs fs' p") auto
  from is_file_ready_False [OF c] process_file_not_ready [OF c]
  show "process_file fs fs' p rule = Some fs \<or> process_file fs fs' p rule = Some fs'"
    by auto
qed

text \<open>The empty picture is ready when nothing changes; when it disappears during the
  wait, it is not, and the file system after the wait is returned as it is.\<close>

theorem is_file_ready_iff_stable_witness:
  "fst (is_file_ready (downloads_fs AttrAbsent) (downloads_fs AttrAbsent) [''w'', ''IMG_1.JPG''])
   \<and> \<not> path_exists ((downloads_fs AttrAbsent)([''w'', ''IMG_1.JPG''] := None)) [''w'', ''IMG_1.JPG'']
   \<and> \<not> fst (is_file_ready (downloads_fs AttrAbsent)
              ((downloads_fs AttrAbsent)([''w'', ''IMG_1.JPG''] := None)) [''w'', ''IMG_1.JPG''])
   \<and> process_file (downloads_fs AttrAbsent)
        ((downloads_fs AttrAbsent)([''w'', ''IMG_1.JPG''] := None)) [''w'', ''IMG_1.JPG'']
        downloads_rule
      = Some ((downloads_fs AttrAbsent)([''w'', ''IMG_1.JPG''] := None))"
proof -
  let ?fs = "downloads_fs AttrAbsent" and ?p = "[''w'', ''IMG_1.JPG'']"
  let ?fs' = "?fs(?p := None)"
  have s: "os_stat ?fs ?p = Inr (regular_file 0 AttrAbsent)
      \<and> os_stat ?fs ?p = Inr (regular_file 0 AttrAbsent)
      \<and> st_size (regular_file 0 AttrAbsent) = 0 \<and> st_size (regular_file 0 AttrAbsent) = 0"
    by (simp add: downloads_fs_def fs_eval)
  have v: "\<not> path_exists ?fs' ?p"
    by (simp add: fs_eval)
  have d: "process_file ?fs ?fs' ?p downloads_rule \<noteq> Some ?fs"
    by (simp add: process_file_def downloads_fs_def fs_eval name_eval fun_eq_iff)
  from is_file_ready_iff_stable [of ?fs ?fs ?p "regular_file 0 AttrAbsent" "regular_file 0 AttrAbsent" downloads_rule] s
  have a: "fst (is_file_ready ?fs ?fs ?p)"
    by blast
  from is_file_ready_iff_stable [of ?fs ?fs' ?p "regular_file 0 AttrAbsent" "regular_file 0 AttrAbsent" downloads_rule] v d
  have "\<not> fst (is_file_ready ?fs ?fs' ?p) \<and> process_file ?fs ?fs' ?p downloads_rule = Some ?fs'"
    by blast
  with a v show ?thesis by blast
qed

subsection \<open>Reading the download source\<close>

text \<open>
  C7. When the attribute decodes to a list of URLs that is not empty,
  \<open>get_download_source\<close> answers the first URL. When the path is missing, the read of
  the attribute raises, the attribute is absent, its payload does not decode, or the list
  is empty, it answers nothing; \<open>process_file\<close>, for a file that passes the checks and
  is ready, is then decided by type matching alone: the move to the destination of the
  first matching type rule, or no change at all.
\<close>

theorem get_download_source_first_url_or_none:
  "(fs' p = Some n \<and> where_froms n = AttrUrls (u # us) \<longrightarrow> get_download_source fs' p = Some u)
   \<and> (fs' p = None
        \<or> (\<exists>m. fs' p = Some m
              \<and> where_froms m \<in> {AttrReadError, AttrAbsent, AttrUndecodable, AttrUrls []})
        \<longrightarrow> get_download_source fs' p = None)
   \<and> (get_download_source fs' p = None
        \<and> \<not> is_dir fs p
        \<and> \<not> startswith (name_of p) ''.''
        \<and> \<not> endswith (name_of p) ''.tmp''
        \<and> name_of p \<notin> set [''.DS_Store'', ''Thumbs.db'', ''.localized'']
        \<and> fst (is_file_ready fs fs' p)
        \<longrightarrow> process_file fs fs' p rule =
              (case find_matching_type_rule p (type_rules rule) of
                 Some type_rule \<Rightarrow>
                   map_option snd
                     (move_file fs' p (joinpath (watch_directory rule) (destination type_rule)))
               | None \<Rightarrow> Some fs'))"
proof (intro conjI impI)
  assume "fs' p = Some n \<and> where_froms n = AttrUrls (u # us)"
  then show "get_download_source fs' p = Some u"
    by (simp add: get_download_source_def os_stat_def)
next
  assume "fs' p = None
        \<or> (\<exists>m. fs' p = Some m
              \<and> where_froms m \<in> {AttrReadError, AttrAbsent, AttrUndecodable, AttrUrls []})"
  then show "get_download_source fs' p = None"
    by (auto simp: get_download_source_def os_stat_def)
next
  assume a: "get_download_source fs' p = None
        \<and> \<not> is_dir fs p
        \<and> \<not> startswith (name_of p) ''.''
        \<and> \<not> endswith (name_of p) ''.tmp''
        \<and> name_of p \<notin> set [''.DS_Store'', ''Thumbs.db'', ''.localized'']
        \<and> fst (is_file_ready fs fs' p)"
  then have r: "is_file_ready fs fs' p = (True, fs')"
    by (simp add: is_file_ready_fst)
  from a have "process_file fs fs' p rule =
     (if (case get_download_source fs' p of
            None \<Rightarrow> False
          | Some url \<Rightarrow> url \<noteq> [] \<and> matches_redirect_domain url (redirect_domains rule))
      then map_option snd
             (move_file fs' p (joinpath (watch_directory rule) (redirect_destination rule)))
      else
        (case find_matching_type_rule p (type_rules rule) of
           Some type_rule \<Rightarrow>
             map_option snd
               (move_file fs' p (joinpath (watch_directory rule) (destination type_rule)))
         | None \<Rightarrow> Some fs'))"
    by (intro process_file_checked r) simp_all
  with a show "process_file fs fs' p rule =
              (case find_matching_type_rule p (type_rules rule) of
                 Some type_rule \<Rightarrow>
                   map_option snd
                     (move_file fs' p (joinpath (watch_directory rule) (destination type_rule)))
               | None \<Rightarrow> Some fs')"
    by simp
qed

text \<open>The first of two URLs is returned. When the read of the attribute raises, the
  picture goes to \<^verbatim>\<open>Photos\<close>, the destination of the first type rule for \<^verbatim>\<open>.jpg\<close>.\<close>

theorem get_download_source_first_url_or_none_witness:
  "get_download_source (downloads_fs (AttrUrls [''https://a.example/x'', ''https://b.example/'']))
      [''w'', ''IMG_1.JPG''] = Some ''https://a.example/x''
   \<and> get_download_source (downloads_fs AttrReadError) [''w'', ''IMG_1.JPG''] = None
   \<and> process_file (downloads_fs AttrReadError) (downloads_fs AttrReadError)
        [''w'', ''IMG_1.JPG''] downloads_rule
      = Some ((downloads_fs AttrReadError)
                ([''w'', ''Photos''] \<mapsto> new_directory,
                 [''w'', ''IMG_1.JPG''] := None,
                 [''w'', ''Photos'', ''IMG_1.JPG''] \<mapsto> regular_file 0 AttrReadError))"
proof -
  let ?p = "[''w'', ''IMG_1.JPG'']"
  let ?urls = "AttrUrls [''https://a.example/x'', ''https://b.example/'']"
  let ?fs = "downloads_fs AttrReadError"
  have "downloads_fs ?urls ?p = Some (regular_file 0 ?urls)
      \<and> where_froms (regular_file 0 ?urls) = AttrUrls (''https://a.example/x'' # [''https://b.example/''])"
    by (simp add: downloads_fs_def regular_file_def)
  then have a: "get_download_source (downloads_fs ?urls) ?p = Some ''https://a.example/x''"
    using get_download_source_first_url_or_none
      [of "downloads_fs ?urls" ?p "regular_file 0 ?urls" "''https://a.example/x''"
          "[''https://b.example/'']"]
    by blast
  have "?fs ?p = Some (regular_file 0 AttrReadError)
      \<and> where_froms (regular_file 0 AttrReadError)
          \<in> {AttrReadError, AttrAbsent, AttrUndecodable, AttrUrls []}"
    by (simp add: downloads_fs_def regular_file_def)
  then have b: "get_download_source ?fs ?p = None"
    using get_download_source_first_url_or_none [of ?fs ?p] by blast
  have c: "\<not> is_dir ?fs ?p \<and> \<not> startswith (name_of ?p) ''.''
      \<and> \<not> endswith (name_of ?p) ''.tmp''
      \<and> name_of ?p \<notin> set [''.DS_Store'', ''Thumbs.db'', ''.localized'']
      \<and> fst (is_file_ready ?fs ?fs ?p)"
    by (simp add: downloads_fs_def fs_eval name_eval)
  have t: "find_matching_type_rule ?p (type_rules downloads_rule) = Some photos_rule"
    by (simp add: rule_eval name_eval)
  have m: "move_file ?fs ?p [''w'', ''Photos'']
      = Some (True, ?fs([''w'', ''Photos''] \<mapsto> new_directory,
                 [''w'', ''IMG_1.JPG''] := None,
                 [''w'', ''Photos'', ''IMG_1.JPG''] \<mapsto> regular_file 0 AttrReadError))"
    by (simp add: downloads_fs_def fs_eval name_eval move_eval)
  have j: "joinpath (watch_directory downloads_rule) (destination photos_rule) = [''w'', ''Photos'']"
    by (simp add: rule_eval name_eval)
  from b c have "process_file ?fs ?fs ?p downloads_rule =
              (case find_matching_type_rule ?p (type_rules downloads_rule) of
                 Some type_rule \<Rightarrow>
                   map_option snd
                     (move_file ?fs ?p (joinpath (watch_directory downloads_rule) (destination type_rule)))
               | None \<Rightarrow> Some ?fs)"
    using get_download_source_first_url_or_none [of ?fs ?p _ _ _ ?fs downloads_rule] by blast
  with t m j have "process_file ?fs ?fs ?p downloads_rule
      = Some (?fs([''w'', ''Photos''] \<mapsto> new_directory,
                 [''w'', ''IMG_1.JPG''] := None,
                 [''w'', ''Photos'', ''IMG_1.JPG''] \<mapsto> regular_file 0 AttrReadError))"
    by simp
  with a b show ?thesis by blast
qed

subsection \<open>A URL without a network location never redirects\<close>

text \<open>
  C9. For the empty URL and for a URL whose network location parses to the empty string,
  \<open>matches_redirect_domain\<close> is false for every list of patterns; a ready file with
  such a download source is decided by type matching alone.
\<close>

theorem empty_netloc_never_redirects:
  assumes "url = [] \<or> urlparse_netloc url = Inr []"
  shows "\<not> matches_redirect_domain url domains
   \<and> (get_download_source fs' p = Some url
        \<and> \<not> is_dir fs p
        \<and> \<not> startswith (name_of p) ''.''
        \<and> \<not> endswith (name_of p) ''.tmp''
        \<and> name_of p \<notin> set [''.DS_Store'', ''Thumbs.db'', ''.localized'']
        \<and> fst (is_file_ready fs fs' p)
        \<longrightarrow> process_file fs fs' p rule =
              (case find_matching_type_rule p (type_rules rule) of
                 Some type_rule \<Rightarrow>
                   map_option snd
                     (move_file fs' p (joinpath (watch_directory rule) (destination type_rule)))
               | None \<Rightarrow> Some fs'))"
proof (intro conjI impI)
  from assms show n: "\<not> matches_redirect_domain url domains" for domains
    by (auto simp: matches_redirect_domain_def extract_domain_def lower_def)
  assume a: "get_download_source fs' p = Some url
        \<and> \<not> is_dir fs p
        \<and> \<not> startswith (name_of p) ''.''
        \<and> \<not> endswith (name_of p) ''.tmp''
        \<and> name_of p \<notin> set [''.DS_Store'', ''Thumbs.db'', ''.localized'']
        \<and> fst (is_file_ready fs fs' p)"
  then have r: "is_file_ready fs fs' p = (True, fs')"
    by (simp add: is_file_ready_fst)
  from a have "process_file fs fs' p rule =
     (if (case get_download_source fs' p of
            None \<Rightarrow> False
          | Some url \<Rightarrow> url \<noteq> [] \<and> matches_redirect_domain url (redirect_domains rule))
      then map_option snd
             (move_file fs' p (joinpath (watch_directory rule) (redirect_destination rule)))
      else
        (case find_matching_type_rule p (type_rules rule) of
           Some type_rule \<Rightarrow>
             map_option snd
               (move_file fs' p (joinpath (watch_directory rule) (destination type_rule)))
         | None \<Rightarrow> Some fs'))"
    by (intro process_file_checked r) simp_all
  with a n [of "redirect_domains rule"] show "process_file fs fs' p rule =
              (case find_matching_type_rule p (type_rules rule) of
                 Some type_rule \<Rightarrow>
                   map_option snd
                     (move_file fs' p (joinpath (watch_directory rule) (destination type_rule)))
               | None \<Rightarrow> Some fs')"
    by simp
qed

text \<open>A bare path has no network location. The pattern \<^verbatim>\<open>ok\<close> occurs in the URL, yet
  the picture goes to \<^verbatim>\<open>Photos\<close> and not to the redirect destination.\<close>

theorem empty_netloc_never_redirects_witness:
  "urlparse_netloc ''ok/downloads/photo.jpg'' = Inr []
   \<and> \<not> matches_redirect_domain ''ok/downloads/photo.jpg'' (redirect_domains downloads_rule)
   \<and> process_file (downloads_fs (AttrUrls [''ok/downloads/photo.jpg'']))
        (downloads_fs (AttrUrls [''ok/downloads/photo.jpg'']))
        [''w'', ''IMG_1.JPG''] downloads_rule
      = Some ((downloads_fs (AttrUrls [''ok/downloads/photo.jpg'']))
                ([''w'', ''Photos''] \<mapsto> new_directory,
                 [''w'', ''IMG_1.JPG''] := None,
                 [''w'', ''Photos'', ''IMG_1.JPG'']
                   \<mapsto> regular_file 0 (AttrUrls [''ok/downloads/photo.jpg''])))"
proof -
  let ?p = "[''w'', ''IMG_1.JPG'']"
  let ?url = "''ok/downloads/photo.jpg''"
  let ?fs = "downloads_fs (AttrUrls [?url])"
  have u: "urlparse_netloc ?url = Inr []"
    by (simp add: url_eval)
  then have h: "?url = [] \<or> urlparse_netloc ?url = Inr []"
    by simp
  have c: "get_download_source ?fs ?p = Some ?url
      \<and> \<not> is_dir ?fs ?p \<and> \<not> startswith (name_of ?p) ''.''
      \<and> \<not> endswith (name_of ?p) ''.tmp''
      \<and> name_of ?p \<notin> set [''.DS_Store'', ''Thumbs.db'', ''.localized'']
      \<and> fst (is_file_ready ?fs ?fs ?p)"
    by (simp add: downloads_fs_def fs_eval name_eval)
  have t: "find_matching_type_rule ?p (type_rules downloads_rule) = Some photos_rule"
    by (simp add: rule_eval name_eval)
  have m: "move_file ?fs ?p [''w'', ''Photos'']
      = Some (True, ?fs([''w'', ''Photos''] \<mapsto> new_directory,
                 [''w'', ''IMG_1.JPG''] := None,
                 [''w'', ''Photos'', ''IMG_1.JPG''] \<mapsto> regular_file 0 (AttrUrls [?url])))"
    by (simp add: downloads_fs_def fs_eval name_eval move_eval)
  have j: "joinpath (watch_directory downloads_rule) (destination photos_rule) = [''w'', ''Photos'']"
    by (simp add: rule_eval name_eval)
  note e = empty_netloc_never_redirects [OF h, of "redirect_domains downloads_rule" ?fs ?p ?fs downloads_rule]
  from e have n: "\<not> matches_redirect_domain ?url (redirect_domains downloads_rule)"
    by blast
  from e c have "process_file ?fs ?fs ?p downloads_rule =
              (case find_matching_type_rule ?p (type_rules downloads_rule) of
                 Some type_rule \<Rightarrow>
                   map_option snd
                     (move_file ?fs ?p (joinpath (watch_directory downloads_rule) (destination type_rule)))
               | None \<Rightarrow> Some ?fs)"
    by blast
  with t m j have "process_file ?fs ?fs ?p downloads_rule
      = Some (?fs([''w'', ''Photos''] \<mapsto> new_directory,
                 [''w'', ''IMG_1.JPG''] := None,
                 [''w'', ''Photos'', ''IMG_1.JPG''] \<mapsto> regular_file 0 (AttrUrls [?url])))"
    by simp
  with u n show ?thesis by blast
qed

subsection \<open>Parsed rules are enabled and their extensions lower-cased\<close>

lemma parse_type_rule_lower:
  "e \<in> set (extensions (parse_type_rule item)) \<Longrightarrow> lower e = e"
  by (cases item) (auto simp: parse_type_rule_def lower_idem)

lemma parse_type_rule_extensions:
  "extensions (parse_type_rule item) = map lower (dict_get (tc_extensions (snd item)) [])"
  by (cases item) (simp add: parse_type_rule_def)

lemma parse_rules_loop_enabled:
  "parse_rules_loop ex rcs = Inr rules \<Longrightarrow> r \<in> set rules \<Longrightarrow>
     enabled r \<and> (\<exists>rc \<in> set rcs. type_rules r = map parse_type_rule (dict_get (rc_type_rules rc) []))"
proof (induction rcs arbitrary: rules)
  case Nil
  then show ?case by simp
next
  case (Cons rc rcs)
  show ?case
  proof (cases "dict_get (rc_enabled rc) True")
    case False
    with Cons.prems have "parse_rules_loop ex rcs = Inr rules" by simp
    from Cons.IH [OF this Cons.prems(2)] show ?thesis by auto
  next
    case True
    with Cons.prems(1) obtain wd nm rest where
      p: "parse_rules_loop ex rcs = Inr rest"
      and rs: "rules = \<lparr> name = nm, watch_directory = parse_parts (ex wd),
                 enabled = dict_get (rc_enabled rc) True,
                 redirect_domains = dict_get (rc_redirect_domains rc) [],
                 type_rules = map parse_type_rule (dict_get (rc_type_rules rc) []),
                 redirect_destination = dict_get (rc_redirect_destination rc) ''tmp'',
                 source_directories = dict_get (rc_source_directories rc) [''.''] \<rparr> # rest"
      by (auto simp: Let_def split: option.splits sum.splits)
    from Cons.prems(2) rs consider "r = hd rules" | "r \<in> set rest" by auto
    then show ?thesis
    proof cases
      case 1
      with rs True show ?thesis by simp
    next
      case 2
      from Cons.IH [OF p 2] show ?thesis by auto
    qed
  qed
qed

lemma parse_rules_loop_names:
  "parse_rules_loop ex rcs = Inr rules \<Longrightarrow>
     map (\<lambda>r. Some (name r)) rules = map rc_name (filter (\<lambda>rc. rc_enabled rc \<noteq> Some False) rcs)"
proof (induction rcs arbitrary: rules)
  case Nil
  then show ?case by simp
next
  case (Cons rc rcs)
  show ?case
  proof (cases "dict_get (rc_enabled rc) True")
    case False
    then have f: "rc_enabled rc = Some False"
      by (simp add: dict_get_def split: option.splits)
    from False Cons.prems have "parse_rules_loop ex rcs = Inr rules" by simp
    from Cons.IH [OF this] f show ?thesis by simp
  next
    case True
    then have f: "rc_enabled rc \<noteq> Some False"
      by (auto simp: dict_get_def)
    from True Cons.prems Cons.IH f show ?thesis
      by (auto simp: Let_def split: option.splits sum.splits)
  qed
qed

lemma type_rule_loop_parsed_None:
  "type_rule_loop (lower e) (map parse_type_rule items) = None \<longleftrightarrow>
     (\<forall>item \<in> set items. \<forall>x \<in> set (dict_get (tc_extensions (snd item)) []). lower x \<noteq> lower e)"
proof (induction items)
  case Nil
  then show ?case by simp
next
  case (Cons item items)
  have "lower e \<in> set (extensions (parse_type_rule item)) \<longleftrightarrow>
        (\<exists>x \<in> set (dict_get (tc_extensions (snd item)) []). lower x = lower e)"
    unfolding parse_type_rule_extensions set_map image_iff by (auto intro: sym)
  with Cons.IH show ?case by auto
qed

text \<open>
  C10. When \<open>parse_watch_rules\<close> returns a list of rules, every rule in it has its
  \<open>enabled\<close> flag set, comes from a rule definition of the document, and lists only
  extensions that lower-casing leaves unchanged; the names of the rules returned are the
  names of the definitions that do not set \<^verbatim>\<open>enabled\<close> to false, in order. A file
  finds no parsed type rule exactly when no configured extension equals its suffix up to
  case.
\<close>

theorem parse_watch_rules_enabled_lowercase:
  assumes "parse_watch_rules expanduser cfg = Inr rules"
  shows "(\<forall>r \<in> set rules.
            enabled r
            \<and> (\<forall>tr \<in> set (type_rules r). \<forall>e \<in> set (extensions tr). lower e = e)
            \<and> (\<exists>rc \<in> set (dict_get (watch_rules cfg) []).
                  type_rules r = map parse_type_rule (dict_get (rc_type_rules rc) [])))
   \<and> map (\<lambda>r. Some (name r)) rules
       = map rc_name (filter (\<lambda>rc. rc_enabled rc \<noteq> Some False) (dict_get (watch_rules cfg) []))
   \<and> (find_matching_type_rule file_path (map parse_type_rule items) = None \<longleftrightarrow>
        (\<forall>item \<in> set items. \<forall>x \<in> set (dict_get (tc_extensions (snd item)) []).
            lower x \<noteq> lower (suffix_of (name_of file_path))))"
proof (intro conjI ballI)
  fix r assume r: "r \<in> set rules"
  from assms have p: "parse_rules_loop expanduser (dict_get (watch_rules cfg) []) = Inr rules"
    by (simp add: parse_watch_rules_def)
  from parse_rules_loop_enabled [OF p r] show "enabled r" by simp
  from parse_rules_loop_enabled [OF p r]
  show t: "\<exists>rc \<in> set (dict_get (watch_rules cfg) []).
         type_rules r = map parse_type_rule (dict_get (rc_type_rules rc) [])"
    by simp
  fix tr e assume "tr \<in> set (type_rules r)" "e \<in> set (extensions tr)"
  with t show "lower e = e"
    by (auto dest: parse_type_rule_lower)
next
  from assms show "map (\<lambda>r. Some (name r)) rules
       = map rc_name (filter (\<lambda>rc. rc_enabled rc \<noteq> Some False) (dict_get (watch_rules cfg) []))"
    by (simp add: parse_watch_rules_def parse_rules_loop_names)
next
  show "find_matching_type_rule file_path (map parse_type_rule items) = None \<longleftrightarrow>
        (\<forall>item \<in> set items. \<forall>x \<in> set (dict_get (tc_extensions (snd item)) []).
            lower x \<noteq> lower (suffix_of (name_of file_path)))"
    by (simp only: find_matching_type_rule_def get_file_extension_def type_rule_loop_parsed_None)
qed



text \<open>The disabled rule is dropped, and a \<^verbatim>\<open>.JPG\<close> file matches the extension that
  the document writes as \<^verbatim>\<open>.JPG\<close> and the parse stores as \<^verbatim>\<open>.jpg\<close>.\<close>

theorem parse_watch_rules_enabled_lowercase_witness:
  "parse_watch_rules (\<lambda>s. s) example_config = Inr [example_parsed]
   \<and> enabled example_parsed
   \<and> lower ''.jpg'' = ''.jpg''
   \<and> lower ''.png'' = ''.png''
   \<and> map (\<lambda>r. Some (name r)) [example_parsed] = [Some ''Downloads'']
   \<and> find_matching_type_rule [''w'', ''IMG_1.JPG''] (type_rules example_parsed) \<noteq> None"
proof -
  let ?items = "[(''Photos'', \<lparr> tc_extensions = Some [''.JPG'', ''.Png''], tc_destination = None \<rparr>)]"
  have p: "parse_watch_rules (\<lambda>s. s) example_config = Inr [example_parsed]"
    by (simp add: parse_watch_rules_def example_config_def example_parsed_def dict_get_def
        parse_type_rule_def name_eval)
  note t = parse_watch_rules_enabled_lowercase [OF p, of "[''w'', ''IMG_1.JPG'']" ?items]
  from t have "\<forall>r \<in> set [example_parsed].
         enabled r \<and> (\<forall>tr \<in> set (type_rules r). \<forall>e \<in> set (extensions tr). lower e = e)"
    by blast
  then have a: "enabled example_parsed \<and> lower ''.jpg'' = ''.jpg'' \<and> lower ''.png'' = ''.png''"
    by (simp add: example_parsed_def)
  from t have "map (\<lambda>r. Some (name r)) [example_parsed]
       = map rc_name (filter (\<lambda>rc. rc_enabled rc \<noteq> Some False)
           (dict_get (watch_rules example_config) []))"
    by blast
  then have b: "map (\<lambda>r. Some (name r)) [example_parsed] = [Some ''Downloads'']"
    by (simp add: example_config_def dict_get_def)
  have "\<not> (\<forall>item \<in> set ?items. \<forall>x \<in> set (dict_get (tc_extensions (snd item)) []).
            lower x \<noteq> lower (suffix_of (name_of [''w'', ''IMG_1.JPG''])))"
    by (simp add: dict_get_def name_eval)
  with t have "find_matching_type_rule [''w'', ''IMG_1.JPG''] (map parse_type_rule ?items) \<noteq> None"
    by blast
  moreover have "map parse_type_rule ?items = type_rules example_parsed"
    by (simp add: parse_type_rule_def example_parsed_def dict_get_def name_eval)
  ultimately have c: "find_matching_type_rule [''w'', ''IMG_1.JPG''] (type_rules example_parsed) \<noteq> None"
    by simp
  from p a b c show ?thesis by blast
qed

subsection \<open>The search for a free name ends\<close>

text \<open>Components of a parsed path hold no separator, so neither do stem and suffix, and
  the candidate names for different counters give different paths.\<close>

lemma split_on_not_Nil: "split_on d s \<noteq> []"
  by (induction s) (auto split: list.splits)

lemma split_on_no_delim: "w \<in> set (split_on d s) \<Longrightarrow> d \<notin> set w"
proof (induction s arbitrary: w)
  case Nil
  then show ?case by simp
next
  case (Cons c cs)
  show ?case
  proof (cases "c = d")
    case True
    with Cons show ?thesis by auto
  next
    case False
    obtain v vs where s: "split_on d cs = v # vs"
      using split_on_not_Nil [of d cs] by (cases "split_on d cs") auto
    with False Cons.prems have "w = c # v \<or> w \<in> set vs" by simp
    then show ?thesis
    proof
      assume "w = c # v"
      moreover have "d \<notin> set v" using Cons.IH [of v] s by simp
      ultimately show ?thesis using False by auto
    next
      assume "w \<in> set vs"
      then show ?thesis using Cons.IH [of w] s by simp
    qed
  qed
qed

lemma split_on_single: "d \<notin> set s \<Longrightarrow> split_on d s = [s]"
  by (induction s) auto

lemma parse_parts_no_slash: "w \<in> set (parse_parts s) \<Longrightarrow> CHR ''/'' \<notin> set w"
  by (auto simp: parse_parts_def dest: split_on_no_delim)

lemma parse_parts_single:
  "CHR ''/'' \<notin> set s \<Longrightarrow> s \<noteq> [] \<Longrightarrow> s \<noteq> ''.'' \<Longrightarrow> parse_parts s = [s]"
  by (simp add: parse_parts_def split_on_single)

lemma name_of_no_slash:
  "\<forall>w \<in> set p. CHR ''/'' \<notin> set w \<Longrightarrow> CHR ''/'' \<notin> set (name_of p)"
  by (auto simp: name_of_def)

lemma startswith_slash: "CHR ''/'' \<notin> set s \<Longrightarrow> \<not> startswith s ''/''"
  by (cases s) auto

lemma joinpath_single:
  "CHR ''/'' \<notin> set s \<Longrightarrow> s \<noteq> [] \<Longrightarrow> s \<noteq> ''.'' \<Longrightarrow> joinpath p s = p @ [s]"
  by (simp add: joinpath_def startswith_slash parse_parts_single)

lemma set_stem_of: "set (stem_of nm) \<subseteq> set nm"
  by (auto simp: stem_of_def Let_def dest: in_set_takeD)

lemma set_suffix_of: "set (suffix_of nm) \<subseteq> set nm"
  by (auto simp: suffix_of_def Let_def dest: in_set_dropD)

lemma stem_suffix: "stem_of nm @ suffix_of nm = nm"
  by (simp add: stem_of_def suffix_of_def Let_def)

lemma digit_in: "d < 10 \<Longrightarrow> digit d \<in> set ''0123456789''"
proof -
  assume "d < 10"
  then have "d \<in> {0, 1, 2, 3, 4, 5, 6, 7, 8, 9}" by auto
  then show ?thesis by (auto simp: digit_def)
qed

lemma digit_inj: "a < 10 \<Longrightarrow> b < 10 \<Longrightarrow> digit a = digit b \<Longrightarrow> a = b"
proof -
  have e: "\<And>d::nat. d < 10 \<Longrightarrow> d \<in> {0, 1, 2, 3, 4, 5, 6, 7, 8, 9}" by auto
  assume "a < 10" "b < 10" "digit a = digit b"
  with e[of a] e[of b] show ?thesis by (auto simp: digit_def)
qed

lemma str_nat_digits: "c \<in> set (str_nat n) \<Longrightarrow> c \<in> set ''0123456789''"
proof (induction n rule: str_nat.induct)
  case (1 n)
  show ?case
  proof (cases "n < 10")
    case True
    with "1.prems" have "c = digit n" by (simp add: str_nat.simps [of n])
    with True digit_in show ?thesis by blast
  next
    case False
    with "1.prems" have "c \<in> set (str_nat (n div 10)) \<or> c = digit (n mod 10)"
      by (auto simp: str_nat.simps [of n])
    then show ?thesis
    proof
      assume "c \<in> set (str_nat (n div 10))"
      with False "1.IH" show ?thesis by blast
    next
      assume "c = digit (n mod 10)"
      then show ?thesis using digit_in [of "n mod 10"] by simp
    qed
  qed
qed

lemma str_nat_not_Nil: "str_nat n \<noteq> []"
  by (subst str_nat.simps) simp

lemma str_nat_inj: "str_nat n = str_nat m \<Longrightarrow> n = m"
proof (induction n arbitrary: m rule: str_nat.induct)
  case (1 n)
  show ?case
  proof (cases "n < 10")
    case n: True
    show ?thesis
    proof (cases "m < 10")
      case True
      with n "1.prems" show ?thesis
        by (simp add: str_nat.simps [of n] str_nat.simps [of m] digit_inj)
    next
      case False
      with n "1.prems" have "[digit n] = str_nat (m div 10) @ [digit (m mod 10)]"
        by (simp add: str_nat.simps [of n] str_nat.simps [of m])
      then have "str_nat (m div 10) = []" by simp
      with str_nat_not_Nil show ?thesis by blast
    qed
  next
    case n: False
    show ?thesis
    proof (cases "m < 10")
      case True
      with n "1.prems" have "str_nat (n div 10) @ [digit (n mod 10)] = [digit m]"
        by (simp add: str_nat.simps [of n] str_nat.simps [of m])
      then have "str_nat (n div 10) = []" by simp
      with str_nat_not_Nil show ?thesis by blast
    next
      case False
      with n "1.prems" have "str_nat (n div 10) @ [digit (n mod 10)]
          = str_nat (m div 10) @ [digit (m mod 10)]"
        by (simp add: str_nat.simps [of n] str_nat.simps [of m])
      then have a: "str_nat (n div 10) = str_nat (m div 10)"
        and b: "digit (n mod 10) = digit (m mod 10)"
        by simp_all
      from "1.IH" [OF n a] have "n div 10 = m div 10" .
      moreover from b have "n mod 10 = m mod 10"
        by (intro digit_inj) simp_all
      ultimately show ?thesis
        by (metis div_mult_mod_eq)
    qed
  qed
qed

lemma new_name_inj: "new_name stm sfx k = new_name stm sfx j \<Longrightarrow> k = j"
  by (simp add: new_name_def str_nat_inj)

lemma new_name_no_slash:
  "CHR ''/'' \<notin> set stm \<Longrightarrow> CHR ''/'' \<notin> set sfx \<Longrightarrow> CHR ''/'' \<notin> set (new_name stm sfx k)"
  by (auto simp: new_name_def dest: str_nat_digits)

lemma new_name_proper: "new_name stm sfx k \<noteq> [] \<and> new_name stm sfx k \<noteq> ''.''"
proof -
  have "CHR ''_'' \<in> set (new_name stm sfx k)"
    by (simp add: new_name_def)
  then show ?thesis by auto
qed

lemma joinpath_new_name:
  "CHR ''/'' \<notin> set stm \<Longrightarrow> CHR ''/'' \<notin> set sfx \<Longrightarrow>
     joinpath dest (new_name stm sfx k) = dest @ [new_name stm sfx k]"
  by (simp add: joinpath_single new_name_no_slash new_name_proper)

lemma finite_names_of_finite_dom:
  assumes "finite (dom fs)"
  shows "finite {x. path_exists fs (dest @ [x])}"
proof -
  have "{x. path_exists fs (dest @ [x])} = (\<lambda>x. dest @ [x]) -` dom fs"
    by (auto simp: path_exists_def os_stat_def split: option.splits)
  moreover have "finite ((\<lambda>x. dest @ [x]) -` dom fs)"
    using assms by (rule finite_vimageI) (simp add: inj_on_def)
  ultimately show ?thesis by simp
qed

lemma free_name_exists:
  assumes "finite {x. path_exists fs (dest @ [x])}"
    and "CHR ''/'' \<notin> set stm" and "CHR ''/'' \<notin> set sfx"
  shows "\<exists>k\<ge>c. \<not> path_exists fs (joinpath dest (new_name stm sfx k))"
proof (rule ccontr)
  let ?f = "\<lambda>k. new_name stm sfx k"
  assume "\<not> (\<exists>k\<ge>c. \<not> path_exists fs (joinpath dest (new_name stm sfx k)))"
  then have "\<forall>k\<ge>c. path_exists fs (dest @ [?f k])"
    using assms(2,3) by (simp add: joinpath_new_name)
  then have "?f ` {c..} \<subseteq> {x. path_exists fs (dest @ [x])}" by auto
  with assms(1) have "finite (?f ` {c..})" by (rule rev_finite_subset)
  moreover have "inj_on ?f {c..}"
    by (auto simp: inj_on_def dest: new_name_inj)
  ultimately have "finite {c..}" by (rule finite_imageD)
  then show False by (simp add: infinite_Ici)
qed

lemma unique_loop_first_free:
  assumes "\<not> path_exists fs (joinpath dest (new_name stm sfx N))"
    and "\<forall>k. c \<le> k \<and> k < N \<longrightarrow> path_exists fs (joinpath dest (new_name stm sfx k))"
    and "c \<le> N"
  shows "unique_loop fs dest stm sfx c = Some (joinpath dest (new_name stm sfx N))"
  using assms
proof (induction "N - c" arbitrary: c)
  case 0
  then have "c = N" by simp
  with "0.prems"(1) show ?case by (subst unique_loop.simps) simp
next
  case (Suc d)
  then have lt: "c < N" by simp
  with Suc.prems(2) have e: "path_exists fs (joinpath dest (new_name stm sfx c))" by simp
  have "unique_loop fs dest stm sfx (c + 1) = Some (joinpath dest (new_name stm sfx N))"
  proof (rule Suc.hyps(1))
    show "d = N - (c + 1)" using Suc.hyps(2) by simp
    show "\<not> path_exists fs (joinpath dest (new_name stm sfx N))" by (rule Suc.prems(1))
    show "\<forall>k. c + 1 \<le> k \<and> k < N \<longrightarrow> path_exists fs (joinpath dest (new_name stm sfx k))"
      using Suc.prems(2) by simp
    show "c + 1 \<le> N" using lt by simp
  qed
  with e show ?case by (subst unique_loop.simps) simp
qed

lemma unique_loop_total:
  assumes "finite {x. path_exists fs (dest @ [x])}"
    and "CHR ''/'' \<notin> set stm" and "CHR ''/'' \<notin> set sfx"
  shows "\<exists>N\<ge>c. unique_loop fs dest stm sfx c = Some (joinpath dest (new_name stm sfx N))
           \<and> \<not> path_exists fs (joinpath dest (new_name stm sfx N))
           \<and> (\<forall>k. c \<le> k \<and> k < N \<longrightarrow> path_exists fs (joinpath dest (new_name stm sfx k)))"
proof -
  let ?free = "\<lambda>k. c \<le> k \<and> \<not> path_exists fs (joinpath dest (new_name stm sfx k))"
  from free_name_exists [OF assms] obtain k where k: "?free k" by blast
  define N where "N = (LEAST k. ?free k)"
  from k have f: "?free N" unfolding N_def by (rule LeastI)
  have m: "\<forall>j. c \<le> j \<and> j < N \<longrightarrow> path_exists fs (joinpath dest (new_name stm sfx j))"
  proof (intro allI impI)
    fix j assume j: "c \<le> j \<and> j < N"
    then have "\<not> ?free j" unfolding N_def using not_less_Least by blast
    with j show "path_exists fs (joinpath dest (new_name stm sfx j))" by simp
  qed
  from f m have "unique_loop fs dest stm sfx c = Some (joinpath dest (new_name stm sfx N))"
    by (intro unique_loop_first_free) simp_all
  with f m show ?thesis by blast
qed

lemma stem_suffix_parsed_no_slash:
  "CHR ''/'' \<notin> set (stem_of (name_of (parse_parts s)))
   \<and> CHR ''/'' \<notin> set (suffix_of (name_of (parse_parts s)))"
proof -
  have "CHR ''/'' \<notin> set (name_of (parse_parts s))"
    by (intro name_of_no_slash ballI) (rule parse_parts_no_slash)
  with set_stem_of set_suffix_of show ?thesis by blast
qed

text \<open>
  C8. For a destination directory that holds finitely many names,
  \<open>generate_unique_filename\<close> returns:
  the destination joined with the original name when that path is free; otherwise the
  destination joined with \<^verbatim>\<open>stem_N\<close> and the suffix, for the least counter \<open>N\<close> from
  1 on whose path is free.
\<close>

theorem generate_unique_filename_total:
  assumes "finite {x. path_exists fs (dest @ [x])}"
  shows "(\<not> path_exists fs (joinpath dest original_name) \<longrightarrow>
            generate_unique_filename fs dest original_name = Some (joinpath dest original_name))
   \<and> (path_exists fs (joinpath dest original_name) \<longrightarrow>
        (\<exists>N\<ge>1.
            generate_unique_filename fs dest original_name
              = Some (joinpath dest
                  (stem_of (name_of (parse_parts original_name)) @ ''_'' @ str_nat N
                     @ suffix_of (name_of (parse_parts original_name))))
            \<and> \<not> path_exists fs (joinpath dest
                  (stem_of (name_of (parse_parts original_name)) @ ''_'' @ str_nat N
                     @ suffix_of (name_of (parse_parts original_name))))
            \<and> (\<forall>k. 1 \<le> k \<and> k < N \<longrightarrow>
                  path_exists fs (joinpath dest
                    (stem_of (name_of (parse_parts original_name)) @ ''_'' @ str_nat k
                       @ suffix_of (name_of (parse_parts original_name)))))))"
proof (intro conjI impI)
  assume "\<not> path_exists fs (joinpath dest original_name)"
  then show "generate_unique_filename fs dest original_name = Some (joinpath dest original_name)"
    by (simp add: generate_unique_filename_def)
next
  let ?stm = "stem_of (name_of (parse_parts original_name))"
  let ?sfx = "suffix_of (name_of (parse_parts original_name))"
  assume e: "path_exists fs (joinpath dest original_name)"
  from stem_suffix_parsed_no_slash [of original_name]
  have "CHR ''/'' \<notin> set ?stm" "CHR ''/'' \<notin> set ?sfx" by simp_all
  from unique_loop_total [OF assms this, of 1] e
  show "\<exists>N\<ge>1.
            generate_unique_filename fs dest original_name
              = Some (joinpath dest (?stm @ ''_'' @ str_nat N @ ?sfx))
            \<and> \<not> path_exists fs (joinpath dest (?stm @ ''_'' @ str_nat N @ ?sfx))
            \<and> (\<forall>k. 1 \<le> k \<and> k < N \<longrightarrow>
                  path_exists fs (joinpath dest (?stm @ ''_'' @ str_nat k @ ?sfx)))"
    by (simp add: generate_unique_filename_def new_name_def)
qed


text \<open>With \<^verbatim>\<open>a.txt\<close> taken the answer is \<^verbatim>\<open>a_1.txt\<close>; \<^verbatim>\<open>b.txt\<close> is free and is
  returned as it is.\<close>

theorem generate_unique_filename_total_witness:
  "finite {x. path_exists outbox_fs ([''out''] @ [x])}
   \<and> path_exists outbox_fs (joinpath [''out''] ''a.txt'')
   \<and> generate_unique_filename outbox_fs [''out''] ''a.txt'' = Some [''out'', ''a_1.txt'']
   \<and> \<not> path_exists outbox_fs (joinpath [''out''] ''b.txt'')
   \<and> generate_unique_filename outbox_fs [''out''] ''b.txt'' = Some [''out'', ''b.txt'']"
proof -
  let ?cand = "\<lambda>k. joinpath [''out'']
      (stem_of (name_of (parse_parts ''a.txt'')) @ ''_'' @ str_nat k
         @ suffix_of (name_of (parse_parts ''a.txt'')))"
  have "finite (dom outbox_fs)"
    by (simp add: outbox_fs_def)
  then have f: "finite {x. path_exists outbox_fs ([''out''] @ [x])}"
    by (rule finite_names_of_finite_dom)
  have a: "path_exists outbox_fs (joinpath [''out''] ''a.txt'')"
    by (simp add: outbox_fs_def fs_eval name_eval)
  have b: "\<not> path_exists outbox_fs (joinpath [''out''] ''b.txt'')"
    by (simp add: outbox_fs_def fs_eval name_eval)
  have c1: "?cand 1 = [''out'', ''a_1.txt'']"
    by (simp add: name_eval)
  have n1: "\<not> path_exists outbox_fs (?cand 1)"
    unfolding c1 by (simp add: outbox_fs_def fs_eval)
  from generate_unique_filename_total [OF f, of "''a.txt''"] a
  obtain N where N: "1 \<le> N"
    and g: "generate_unique_filename outbox_fs [''out''] ''a.txt'' = Some (?cand N)"
    and m: "\<forall>k. 1 \<le> k \<and> k < N \<longrightarrow> path_exists outbox_fs (?cand k)"
    by blast
  have "N = 1"
  proof (rule ccontr)
    assume "N \<noteq> 1"
    with N have "1 \<le> (1::nat) \<and> 1 < N" by simp
    with m have "path_exists outbox_fs (?cand 1)" by blast
    with n1 show False by simp
  qed
  with g c1 have ga: "generate_unique_filename outbox_fs [''out''] ''a.txt'' = Some [''out'', ''a_1.txt'']"
    by simp
  from generate_unique_filename_total [OF f, of "''b.txt''"] b
  have "generate_unique_filename outbox_fs [''out''] ''b.txt'' = Some (joinpath [''out''] ''b.txt'')"
    by blast
  then have gb: "generate_unique_filename outbox_fs [''out''] ''b.txt'' = Some [''out'', ''b.txt'']"
    by (simp add: name_eval)
  from f a ga b gb show ?thesis by blast
qed

subsection \<open>Creating the destination and moving a regular file\<close>

lemma os_mkdir_Inr:
  "os_mkdir fs p = Inr fs1 \<Longrightarrow> fs p = None \<and> fs1 = fs(p \<mapsto> new_directory)"
  by (auto simp: os_mkdir_def split: if_splits option.splits)

lemma map_le_fresh: "fs p = None \<Longrightarrow> fs \<subseteq>\<^sub>m fs(p \<mapsto> v)"
  by (auto simp: map_le_def)

lemma is_dir_new_directory: "is_dir (fs(p \<mapsto> new_directory)) p"
  by (simp add: is_dir_def os_stat_def new_directory_def)

lemma mkdir_exist_ok_cases:
  assumes "mkdir_exist_ok fs p = (e, fs1)"
  shows "(fs1 = fs \<or> (fs p = None \<and> fs1 = fs(p \<mapsto> new_directory)))
         \<and> (e = None \<longrightarrow> is_dir fs1 p)"
proof (cases "os_mkdir fs p")
  case (Inl err)
  with assms show ?thesis
    by (auto simp: mkdir_exist_ok_def split: if_splits)
next
  case (Inr fs2)
  from os_mkdir_Inr [OF Inr] Inr assms show ?thesis
    by (auto simp: mkdir_exist_ok_def is_dir_new_directory)
qed

lemma ensure_directory_existing: "is_dir fs d \<Longrightarrow> ensure_directory fs d = (None, fs)"
  by (subst ensure_directory.simps)
     (auto simp: os_mkdir_def is_dir_def os_stat_def split: option.splits)

lemma ensure_directory_extends:
  "ensure_directory fs d = (e, fs1) \<Longrightarrow>
     fs \<subseteq>\<^sub>m fs1 \<and> (finite (dom fs) \<longrightarrow> finite (dom fs1)) \<and> (e = None \<longrightarrow> is_dir fs1 d)"
proof (induction fs d arbitrary: e fs1 rule: ensure_directory.induct)
  case (1 fs p)
  show ?case
  proof (cases "os_mkdir fs p")
    case (Inr fs2)
    with "1.prems" have "e = None" "fs1 = fs2"
      by (simp_all add: ensure_directory.simps [of fs p])
    with os_mkdir_Inr [OF Inr] have n: "fs p = None" and u: "fs1 = fs(p \<mapsto> new_directory)"
      by simp_all
    from n have "fs \<subseteq>\<^sub>m fs(p \<mapsto> new_directory)"
      by (rule map_le_fresh)
    moreover have "finite (dom fs) \<longrightarrow> finite (dom (fs(p \<mapsto> new_directory)))"
      by simp
    ultimately show ?thesis
      unfolding u using is_dir_new_directory [of fs p] by blast
  next
    case (Inl err)
    show ?thesis
    proof (cases "err = FileNotFoundError")
      case False
      with Inl "1.prems" show ?thesis
        by (auto simp: ensure_directory.simps [of fs p] split: if_splits)
    next
      case nf: True
      show ?thesis
      proof (cases "parent p = p")
        case True
        with Inl nf "1.prems" show ?thesis
          by (auto simp: ensure_directory.simps [of fs p])
      next
        case False
        obtain e2 fs2 where r: "ensure_directory fs (parent p) = (e2, fs2)"
          by (cases "ensure_directory fs (parent p)")
        from "1.IH" [OF Inl nf False r]
        have ih: "fs \<subseteq>\<^sub>m fs2" "finite (dom fs) \<longrightarrow> finite (dom fs2)"
          by simp_all
        show ?thesis
        proof (cases e2)
          case (Some err2)
          with Inl nf False r "1.prems" have "fs1 = fs2" "e = Some err2"
            by (simp_all add: ensure_directory.simps [of fs p])
          with ih show ?thesis by simp
        next
          case None
          with Inl nf False r "1.prems" have m: "mkdir_exist_ok fs2 p = (e, fs1)"
            by (simp add: ensure_directory.simps [of fs p])
          from mkdir_exist_ok_cases [OF m]
          have c: "fs1 = fs2 \<or> (fs2 p = None \<and> fs1 = fs2(p \<mapsto> new_directory))"
            and d: "e = None \<longrightarrow> is_dir fs1 p"
            by simp_all
          from c have "fs2 \<subseteq>\<^sub>m fs1 \<and> (finite (dom fs2) \<longrightarrow> finite (dom fs1))"
          proof
            assume "fs1 = fs2"
            then show ?thesis by simp
          next
            assume a: "fs2 p = None \<and> fs1 = fs2(p \<mapsto> new_directory)"
            then have "fs2 \<subseteq>\<^sub>m fs2(p \<mapsto> new_directory)"
              by (simp add: map_le_fresh)
            moreover have "finite (dom fs2) \<longrightarrow> finite (dom (fs2(p \<mapsto> new_directory)))"
              by simp
            ultimately show ?thesis using a by blast
          qed
          with ih d show ?thesis
            by (auto intro: map_le_trans)
        qed
      qed
    qed
  qed
qed

lemma proper_name_single:
  assumes "CHR ''/'' \<notin> set nm" and "nm \<noteq> []" and "nm \<noteq> ''.''"
  shows "joinpath dest nm = dest @ [nm]"
    and "name_of (parse_parts nm) = nm"
  using assms by (simp_all add: joinpath_single parse_parts_single name_of_def)

lemma path_exists_iff: "path_exists fs q \<longleftrightarrow> fs q \<noteq> None"
  by (simp add: path_exists_def os_stat_def split: option.splits)

text \<open>The move of a regular file with a proper name into an existing directory.\<close>

lemma shutil_move_regular_free:
  assumes "fs src = Some n" and "kind n = Regular" and "fs target = None"
    and "is_dir fs (parent target)"
  shows "shutil_move fs src target = Inr ((fs(src := None))(target \<mapsto> n))"
  using assms by (simp add: shutil_move_def rename_or_copy_def is_dir_def os_stat_def)

lemma move_file_regular:
  assumes src: "fs src = Some n" "kind n = Regular"
    and nm: "CHR ''/'' \<notin> set (name_of src)" "name_of src \<noteq> []" "name_of src \<noteq> ''.''"
    and mk: "ensure_directory fs dest = (None, fs1)"
    and fin1: "finite {x. path_exists fs1 (dest @ [x])}"
  shows "(fs1 (dest @ [name_of src]) = None \<longrightarrow>
            move_file fs src dest
              = Some (True, (fs1(src := None))(dest @ [name_of src] \<mapsto> n)))
   \<and> (fs1 (dest @ [name_of src]) \<noteq> None \<longrightarrow>
        (\<exists>N\<ge>1.
            fs1 (dest @ [new_name (stem_of (name_of src)) (suffix_of (name_of src)) N]) = None
            \<and> (\<forall>k. 1 \<le> k \<and> k < N \<longrightarrow>
                  fs1 (dest @ [new_name (stem_of (name_of src)) (suffix_of (name_of src)) k])
                    \<noteq> None)
            \<and> move_file fs src dest
                = Some (True, (fs1(src := None))
                    (dest @ [new_name (stem_of (name_of src)) (suffix_of (name_of src)) N]
                       \<mapsto> n))))"
proof (intro conjI impI)
  let ?nm = "name_of src"
  let ?cand = "\<lambda>k. dest @ [new_name (stem_of ?nm) (suffix_of ?nm) k]"
  from ensure_directory_extends [OF mk]
  have le: "fs \<subseteq>\<^sub>m fs1" and d: "is_dir fs1 dest"
    by simp_all
  from le src(1) have src1: "fs1 src = Some n"
    by (auto simp: map_le_def dom_def)
  note j = proper_name_single [OF nm]
  have sl: "CHR ''/'' \<notin> set (stem_of ?nm)" "CHR ''/'' \<notin> set (suffix_of ?nm)"
    using nm(1) set_stem_of [of ?nm] set_suffix_of [of ?nm] by auto
  have mv: "move_file fs src dest = Some (True, (fs1(src := None))(dest @ [x] \<mapsto> n))"
    if g: "generate_unique_filename fs1 dest ?nm = Some (dest @ [x])"
      and f: "fs1 (dest @ [x]) = None" for x
  proof -
    from d have "is_dir fs1 (parent (dest @ [x]))"
      by (simp add: parent_def)
    from shutil_move_regular_free [OF src1 src(2) f this] mk g
    show ?thesis by (simp add: move_file_def)
  qed
  {
    assume f: "fs1 (dest @ [?nm]) = None"
    then have "generate_unique_filename fs1 dest ?nm = Some (dest @ [?nm])"
      by (simp add: generate_unique_filename_def j(1) path_exists_iff)
    from mv [OF this f]
    show "move_file fs src dest = Some (True, (fs1(src := None))(dest @ [?nm] \<mapsto> n))" .
  }
  {
    assume e: "fs1 (dest @ [?nm]) \<noteq> None"
    from unique_loop_total [OF fin1 sl, of 1]
    obtain N where N: "1 \<le> N"
      and u: "unique_loop fs1 dest (stem_of ?nm) (suffix_of ?nm) 1 = Some (?cand N)"
      and f: "fs1 (?cand N) = None"
      and m: "\<forall>k. 1 \<le> k \<and> k < N \<longrightarrow> fs1 (?cand k) \<noteq> None"
      unfolding joinpath_new_name [OF sl] path_exists_iff by auto
    from e u have "generate_unique_filename fs1 dest ?nm = Some (?cand N)"
      by (simp add: generate_unique_filename_def j path_exists_iff)
    from mv [OF this f] N f m
    show "\<exists>N\<ge>1. fs1 (?cand N) = None
            \<and> (\<forall>k. 1 \<le> k \<and> k < N \<longrightarrow> fs1 (?cand k) \<noteq> None)
            \<and> move_file fs src dest = Some (True, (fs1(src := None))(?cand N \<mapsto> n))"
      by blast
  }
qed

subsection \<open>A move never replaces a file\<close>

text \<open>
  C2. A regular file whose name is a proper path component is moved into a directory
  that already holds an entry of that name, among finitely many names.
  The name is its stem followed by its suffix. There is a least counter \<open>N\<close> from 1 on
  for which \<^verbatim>\<open>stem_N\<close> followed by the suffix is free in the destination; the move
  succeeds, puts the file there and removes it from its source, and every other entry of
  the file system is what it was: nothing is replaced.
\<close>

theorem move_file_first_free_suffix:
  assumes "finite {x. path_exists fs (dest @ [x])}" and "is_dir fs dest"
    and "fs src = Some n" and "kind n = Regular"
    and "CHR ''/'' \<notin> set (name_of src)" and "name_of src \<noteq> []" and "name_of src \<noteq> ''.''"
    and "path_exists fs (dest @ [name_of src])"
  shows "stem_of (name_of src) @ suffix_of (name_of src) = name_of src
   \<and> (\<exists>N\<ge>1.
        fs (dest @ [stem_of (name_of src) @ ''_'' @ str_nat N @ suffix_of (name_of src)]) = None
        \<and> (\<forall>k. 1 \<le> k \<and> k < N \<longrightarrow>
              fs (dest @ [stem_of (name_of src) @ ''_'' @ str_nat k @ suffix_of (name_of src)])
                \<noteq> None)
        \<and> move_file fs src dest
            = Some (True, (fs(src := None))
                (dest @ [stem_of (name_of src) @ ''_'' @ str_nat N @ suffix_of (name_of src)]
                   \<mapsto> n))
        \<and> (\<forall>q. fs q \<noteq> None \<and> q \<noteq> src \<longrightarrow>
              ((fs(src := None))
                 (dest @ [stem_of (name_of src) @ ''_'' @ str_nat N @ suffix_of (name_of src)]
                    \<mapsto> n)) q = fs q))"
proof
  show "stem_of (name_of src) @ suffix_of (name_of src) = name_of src"
    by (rule stem_suffix)
next
  let ?cand = "\<lambda>k. dest @ [new_name (stem_of (name_of src)) (suffix_of (name_of src)) k]"
  from assms(2) have mk: "ensure_directory fs dest = (None, fs)"
    by (rule ensure_directory_existing)
  from assms(8) have e: "fs (dest @ [name_of src]) \<noteq> None"
    by (simp add: path_exists_iff)
  from move_file_regular [OF assms(3-7) mk assms(1)] e
  obtain N where N: "1 \<le> N" and f: "fs (?cand N) = None"
    and m: "\<forall>k. 1 \<le> k \<and> k < N \<longrightarrow> fs (?cand k) \<noteq> None"
    and mv: "move_file fs src dest = Some (True, (fs(src := None))(?cand N \<mapsto> n))"
    by blast
  from f have "\<forall>q. fs q \<noteq> None \<and> q \<noteq> src \<longrightarrow> ((fs(src := None))(?cand N \<mapsto> n)) q = fs q"
    by auto
  with N f m mv
  have "\<exists>N\<ge>1. fs (?cand N) = None
        \<and> (\<forall>k. 1 \<le> k \<and> k < N \<longrightarrow> fs (?cand k) \<noteq> None)
        \<and> move_file fs src dest = Some (True, (fs(src := None))(?cand N \<mapsto> n))
        \<and> (\<forall>q. fs q \<noteq> None \<and> q \<noteq> src \<longrightarrow> ((fs(src := None))(?cand N \<mapsto> n)) q = fs q)"
    by blast
  then show "\<exists>N\<ge>1.
        fs (dest @ [stem_of (name_of src) @ ''_'' @ str_nat N @ suffix_of (name_of src)]) = None
        \<and> (\<forall>k. 1 \<le> k \<and> k < N \<longrightarrow>
              fs (dest @ [stem_of (name_of src) @ ''_'' @ str_nat k @ suffix_of (name_of src)])
                \<noteq> None)
        \<and> move_file fs src dest
            = Some (True, (fs(src := None))
                (dest @ [stem_of (name_of src) @ ''_'' @ str_nat N @ suffix_of (name_of src)]
                   \<mapsto> n))
        \<and> (\<forall>q. fs q \<noteq> None \<and> q \<noteq> src \<longrightarrow>
              ((fs(src := None))
                 (dest @ [stem_of (name_of src) @ ''_'' @ str_nat N @ suffix_of (name_of src)]
                    \<mapsto> n)) q = fs q)"
    unfolding new_name_def .
qed

text \<open>Moving \<^verbatim>\<open>a.txt\<close> into a directory that holds \<^verbatim>\<open>a.txt\<close> produces
  \<^verbatim>\<open>a_1.txt\<close> and leaves the \<^verbatim>\<open>a.txt\<close> there as it was; moving another \<^verbatim>\<open>a.txt\<close>
  then produces \<^verbatim>\<open>a_2.txt\<close>.\<close>

theorem move_file_first_free_suffix_witness:
  "move_file outbox_fs [''in'', ''a.txt''] [''out''] = Some (True, outbox_after_first)
   \<and> outbox_after_first [''out'', ''a.txt''] = outbox_fs [''out'', ''a.txt'']
   \<and> move_file outbox_after_first [''in2'', ''a.txt''] [''out'']
       = Some (True, (outbox_after_first([''in2'', ''a.txt''] := None))
                       ([''out'', ''a_2.txt''] \<mapsto> regular_file 4 AttrAbsent))"
proof -
  let ?cand = "\<lambda>src k. [''out''] @ [stem_of (name_of src) @ ''_'' @ str_nat k @ suffix_of (name_of src)]"
  let ?s1 = "[''in'', ''a.txt'']" and ?s2 = "[''in2'', ''a.txt'']"
  have c1: "?cand ?s1 1 = [''out'', ''a_1.txt'']" "?cand ?s2 1 = [''out'', ''a_1.txt'']"
    by (simp_all add: name_eval)
  have c2: "?cand ?s2 2 = [''out'', ''a_2.txt'']"
    by (simp add: name_eval)
  have nm: "CHR ''/'' \<notin> set (name_of ?s1)" "name_of ?s1 \<noteq> []" "name_of ?s1 \<noteq> ''.''"
    "CHR ''/'' \<notin> set (name_of ?s2)" "name_of ?s2 \<noteq> []" "name_of ?s2 \<noteq> ''.''"
    by (simp_all add: name_of_def)
  \<comment> \<open>first move\<close>
  have "finite (dom outbox_fs)"
    by (simp add: outbox_fs_def)
  then have f1: "finite {x. path_exists outbox_fs ([''out''] @ [x])}"
    by (rule finite_names_of_finite_dom)
  have d1: "is_dir outbox_fs [''out'']"
    by (simp add: outbox_fs_def fs_eval)
  have s1: "outbox_fs ?s1 = Some (regular_file 3 AttrAbsent)"
    by (simp add: outbox_fs_def)
  have k1: "kind (regular_file 3 AttrAbsent) = Regular" "kind (regular_file 4 AttrAbsent) = Regular"
    by (simp_all add: regular_file_def)
  have e1: "path_exists outbox_fs ([''out''] @ [name_of ?s1])"
    by (simp add: outbox_fs_def fs_eval name_of_def)
  have free1: "outbox_fs (?cand ?s1 1) = None"
    unfolding c1 by (simp add: outbox_fs_def)
  from move_file_first_free_suffix [OF f1 d1 s1 k1(1) nm(1-3) e1]
  obtain N where N: "1 \<le> N"
    and m: "\<forall>k. 1 \<le> k \<and> k < N \<longrightarrow> outbox_fs (?cand ?s1 k) \<noteq> None"
    and mv: "move_file outbox_fs ?s1 [''out'']
        = Some (True, (outbox_fs(?s1 := None))(?cand ?s1 N \<mapsto> regular_file 3 AttrAbsent))"
    by blast
  have "N = 1"
  proof (rule ccontr)
    assume "N \<noteq> 1"
    with N have "1 \<le> (1::nat) \<and> 1 < N" by simp
    with m have "outbox_fs (?cand ?s1 1) \<noteq> None" by blast
    with free1 show False by simp
  qed
  with mv c1 have a: "move_file outbox_fs ?s1 [''out''] = Some (True, outbox_after_first)"
    by (simp add: outbox_after_first_def)
  have b: "outbox_after_first [''out'', ''a.txt''] = outbox_fs [''out'', ''a.txt'']"
    by (simp add: outbox_after_first_def)
  \<comment> \<open>second move\<close>
  have "finite (dom outbox_after_first)"
    by (simp add: outbox_after_first_def outbox_fs_def)
  then have f2: "finite {x. path_exists outbox_after_first ([''out''] @ [x])}"
    by (rule finite_names_of_finite_dom)
  have d2: "is_dir outbox_after_first [''out'']"
    by (simp add: outbox_after_first_def outbox_fs_def fs_eval)
  have s2: "outbox_after_first ?s2 = Some (regular_file 4 AttrAbsent)"
    by (simp add: outbox_after_first_def outbox_fs_def)
  have e2: "path_exists outbox_after_first ([''out''] @ [name_of ?s2])"
    by (simp add: outbox_after_first_def outbox_fs_def fs_eval name_of_def)
  have taken: "outbox_after_first (?cand ?s2 1) \<noteq> None"
    unfolding c1 by (simp add: outbox_after_first_def)
  have free2: "outbox_after_first (?cand ?s2 2) = None"
    unfolding c2 by (simp add: outbox_after_first_def outbox_fs_def)
  from move_file_first_free_suffix [OF f2 d2 s2 k1(2) nm(4-6) e2]
  obtain M where M: "1 \<le> M"
    and fM: "outbox_after_first (?cand ?s2 M) = None"
    and mM: "\<forall>k. 1 \<le> k \<and> k < M \<longrightarrow> outbox_after_first (?cand ?s2 k) \<noteq> None"
    and mvM: "move_file outbox_after_first ?s2 [''out'']
        = Some (True, (outbox_after_first(?s2 := None))
            (?cand ?s2 M \<mapsto> regular_file 4 AttrAbsent))"
    by blast
  have "M = 2"
  proof (rule ccontr)
    assume ne: "M \<noteq> 2"
    from fM taken have "M \<noteq> 1" by auto
    with M ne have "1 \<le> (2::nat) \<and> 2 < M" by simp
    with mM have "outbox_after_first (?cand ?s2 2) \<noteq> None" by blast
    with free2 show False by simp
  qed
  with mvM c2 have c: "move_file outbox_after_first ?s2 [''out'']
       = Some (True, (outbox_after_first(?s2 := None))
                       ([''out'', ''a_2.txt''] \<mapsto> regular_file 4 AttrAbsent))"
    by simp
  from a b c show ?thesis by blast
qed

subsection \<open>The redirect check comes before type matching\<close>

text \<open>
  C1. For a path that is not a directory, passes the name checks and is ready, and whose
  download source matches a redirect domain of the rule, \<open>process_file\<close> is the move to
  the watch directory joined with the redirect destination, whatever the type rules of
  the rule are. When, moreover, the file system has finitely many paths, the path is a
  regular file with a proper name and the destination directory can be created, the file
  ends up in that directory and is gone from its path.
\<close>

theorem process_file_redirect_priority:
  assumes "\<not> is_dir fs p"
    and "\<not> startswith (name_of p) ''.''"
    and "\<not> endswith (name_of p) ''.tmp''"
    and "name_of p \<notin> set [''.DS_Store'', ''Thumbs.db'', ''.localized'']"
    and "fst (is_file_ready fs fs' p)"
    and "get_download_source fs' p = Some url"
    and "matches_redirect_domain url (redirect_domains rule)"
  shows "process_file fs fs' p rule
           = map_option snd
               (move_file fs' p (joinpath (watch_directory rule) (redirect_destination rule)))
   \<and> (finite (dom fs') \<and> fs' p = Some n \<and> kind n = Regular
        \<and> CHR ''/'' \<notin> set (name_of p) \<and> name_of p \<noteq> []
        \<and> fst (ensure_directory fs'
                  (joinpath (watch_directory rule) (redirect_destination rule))) = None
        \<longrightarrow> (\<exists>fs2 x. process_file fs fs' p rule = Some fs2
               \<and> fs2 (joinpath (watch_directory rule) (redirect_destination rule) @ [x]) = Some n
               \<and> fs2 p = None))"
proof (intro conjI impI)
  let ?D = "joinpath (watch_directory rule) (redirect_destination rule)"
  from assms(5) have r: "is_file_ready fs fs' p = (True, fs')"
    by (rule is_file_ready_fst)
  from assms(7) have "url \<noteq> []"
    by (auto simp: matches_redirect_domain_def)
  with assms(6,7) show eq: "process_file fs fs' p rule = map_option snd (move_file fs' p ?D)"
    by (simp add: process_file_checked [OF assms(1-4) r])
  assume h: "finite (dom fs') \<and> fs' p = Some n \<and> kind n = Regular
        \<and> CHR ''/'' \<notin> set (name_of p) \<and> name_of p \<noteq> []
        \<and> fst (ensure_directory fs' ?D) = None"
  then obtain fs1 where mk: "ensure_directory fs' ?D = (None, fs1)"
    by (cases "ensure_directory fs' ?D") auto
  from assms(2) have nd: "name_of p \<noteq> ''.''"
    by auto
  from h have fin: "finite (dom fs')" and src: "fs' p = Some n" "kind n = Regular"
    and nm: "CHR ''/'' \<notin> set (name_of p)" "name_of p \<noteq> []"
    by simp_all
  from ensure_directory_extends [OF mk] src(1) have src1: "fs1 p = Some n"
    by (auto simp: map_le_def dom_def)
  from ensure_directory_extends [OF mk] fin have "finite (dom fs1)"
    by simp
  then have fin1: "finite {x. path_exists fs1 (?D @ [x])}"
    by (rule finite_names_of_finite_dom)
  from move_file_regular [OF src nm nd mk fin1]
  obtain x where f: "fs1 (?D @ [x]) = None"
    and mv: "move_file fs' p ?D = Some (True, (fs1(p := None))(?D @ [x] \<mapsto> n))"
    by (cases "fs1 (?D @ [name_of p]) = None") auto
  from f src1 have "p \<noteq> ?D @ [x]" by auto
  then have "((fs1(p := None))(?D @ [x] \<mapsto> n)) (?D @ [x]) = Some n
      \<and> ((fs1(p := None))(?D @ [x] \<mapsto> n)) p = None"
    by simp
  with eq mv show "\<exists>fs2 x. process_file fs fs' p rule = Some fs2
               \<and> fs2 (?D @ [x]) = Some n \<and> fs2 p = None"
    by auto
qed


text \<open>A picture downloaded from \<^verbatim>\<open>www.facebook.com\<close> matches the pattern \<^verbatim>\<open>ok\<close> and
  goes to \<^verbatim>\<open>tmp\<close>, although its extension is listed by the type rule \<^verbatim>\<open>Photos\<close>.\<close>

theorem process_file_redirect_priority_witness:
  "get_download_source (downloads_fs (AttrUrls [''https://www.facebook.com/photo.jpg'']))
      [''w'', ''IMG_1.JPG''] = Some ''https://www.facebook.com/photo.jpg''
   \<and> matches_redirect_domain ''https://www.facebook.com/photo.jpg''
        (redirect_domains downloads_rule)
   \<and> find_matching_type_rule [''w'', ''IMG_1.JPG''] (type_rules downloads_rule)
       = Some photos_rule
   \<and> finite (dom (downloads_fs (AttrUrls [''https://www.facebook.com/photo.jpg''])))
   \<and> fst (ensure_directory (downloads_fs (AttrUrls [''https://www.facebook.com/photo.jpg'']))
             [''w'', ''tmp'']) = None
   \<and> process_file (downloads_fs (AttrUrls [''https://www.facebook.com/photo.jpg'']))
        (downloads_fs (AttrUrls [''https://www.facebook.com/photo.jpg'']))
        [''w'', ''IMG_1.JPG''] downloads_rule
      = Some ((downloads_fs (AttrUrls [''https://www.facebook.com/photo.jpg'']))
                ([''w'', ''tmp''] \<mapsto> new_directory,
                 [''w'', ''IMG_1.JPG''] := None,
                 [''w'', ''tmp'', ''IMG_1.JPG'']
                   \<mapsto> regular_file 0 (AttrUrls [''https://www.facebook.com/photo.jpg''])))"
proof -
  let ?p = "[''w'', ''IMG_1.JPG'']"
  let ?url = "''https://www.facebook.com/photo.jpg''"
  let ?fs = "downloads_fs (AttrUrls [?url])"
  have h1: "\<not> is_dir ?fs ?p"
    by (simp add: downloads_fs_def fs_eval)
  have h2: "\<not> startswith (name_of ?p) ''.''"
    by (simp add: name_eval)
  have h3: "\<not> endswith (name_of ?p) ''.tmp''"
    by (simp add: name_eval)
  have h4: "name_of ?p \<notin> set [''.DS_Store'', ''Thumbs.db'', ''.localized'']"
    by (simp add: name_eval)
  have h5: "fst (is_file_ready ?fs ?fs ?p)"
    by (simp add: downloads_fs_def fs_eval)
  have h6: "get_download_source ?fs ?p = Some ?url"
    by (simp add: downloads_fs_def fs_eval)
  have h7: "matches_redirect_domain ?url (redirect_domains downloads_rule)"
    by (simp add: downloads_rule_def url_match_eval lower_def lower_char_eval)
  have t: "find_matching_type_rule ?p (type_rules downloads_rule) = Some photos_rule"
    by (simp add: rule_eval name_eval)
  have j: "joinpath (watch_directory downloads_rule) (redirect_destination downloads_rule)
      = [''w'', ''tmp'']"
    by (simp add: rule_eval name_eval)
  have m: "move_file ?fs ?p [''w'', ''tmp'']
      = Some (True, ?fs([''w'', ''tmp''] \<mapsto> new_directory,
                 [''w'', ''IMG_1.JPG''] := None,
                 [''w'', ''tmp'', ''IMG_1.JPG''] \<mapsto> regular_file 0 (AttrUrls [?url])))"
    by (simp add: downloads_fs_def fs_eval name_eval move_eval)
  from process_file_redirect_priority [OF h1 h2 h3 h4 h5 h6 h7]
  have "process_file ?fs ?fs ?p downloads_rule
      = map_option snd (move_file ?fs ?p
          (joinpath (watch_directory downloads_rule) (redirect_destination downloads_rule)))"
    by blast
  with j m have "process_file ?fs ?fs ?p downloads_rule
      = Some (?fs([''w'', ''tmp''] \<mapsto> new_directory,
                 [''w'', ''IMG_1.JPG''] := None,
                 [''w'', ''tmp'', ''IMG_1.JPG''] \<mapsto> regular_file 0 (AttrUrls [?url])))"
    by simp
  moreover have "finite (dom ?fs)"
    by (simp add: downloads_fs_def)
  moreover have "fst (ensure_directory ?fs [''w'', ''tmp'']) = None"
    by (simp add: downloads_fs_def fs_eval)
  ultimately show ?thesis using h6 h7 t by blast
qed

end
